theory Spec2Isabelle
  imports Main "HOL-Library.Word"
begin

unbundle bit_operations_syntax

section \<open>Pixel update receiver: the frame decoder and compositor of main.cpp\<close>

text \<open>
  The program is one Arduino sketch, \<^verbatim>\<open>src/main.cpp\<close>. Its globals (the statistics, the
  update buffer, the client and server objects, the display, the serial console) are the
  fields of one record \<open>state\<close>, and every function takes the state and returns the new
  one. The collaborators that are library objects (\<^verbatim>\<open>WiFiClient\<close>, \<^verbatim>\<open>WiFiServer\<close>, the
  display, the heap, \<^verbatim>\<open>Serial\<close>) are modelled by what the sketch can observe of them.
\<close>

type_synonym u8 = "8 word"
type_synonym u16 = "16 word"
type_synonym u32 = "32 word"

subsection \<open>Protocol constants (lines 41-46)\<close>

definition MAGIC :: "u8 list" where
  "MAGIC = [0x50, 0x58, 0x55, 0x50]"  \<comment> \<open>'P' 'X' 'U' 'P'\<close>

definition PROTO_VERSION :: u8 where
  "PROTO_VERSION = 0x02"

definition HEADER_SIZE :: nat where
  "HEADER_SIZE = 11"

definition MAGIC_RUN :: "u8 list" where
  "MAGIC_RUN = [0x50, 0x58, 0x55, 0x52]"  \<comment> \<open>'P' 'X' 'U' 'R'\<close>

definition RUN_VERSION :: u8 where
  "RUN_VERSION = 0x01"

definition RUN_HEADER_SIZE :: nat where
  "RUN_HEADER_SIZE = 11"

text \<open>\<^verbatim>\<open>sizeof(PixelUpdate)\<close>: four \<^verbatim>\<open>uint16_t\<close> fields.\<close>

definition sizeof_PixelUpdate :: u32 where
  "sizeof_PixelUpdate = 8"

subsection \<open>The update entry (lines 54-59)\<close>

record PixelUpdate =
  upd_x :: u16
  upd_y :: u16
  upd_len :: u16
  upd_color :: u16

subsection \<open>The transport: WiFiClient and WiFiServer\<close>

text \<open>
  A client is a socket flag, the bytes received and not yet read, and the script of the
  peer: the chunks that will still arrive, one at each \<^verbatim>\<open>delay(1)\<close>, and whether the peer
  closes the connection after the last chunk (\<open>hangup\<close>) or stays connected and silent.
\<close>

record WiFiClient =
  sock :: bool
  rxbuf :: "u8 list"
  wire :: "u8 list list"
  hangup :: bool

definition client_bool :: "WiFiClient \<Rightarrow> bool" where
  "client_bool c = sock c"

definition connected :: "WiFiClient \<Rightarrow> bool" where
  "connected c = (sock c \<and> (rxbuf c \<noteq> [] \<or> wire c \<noteq> [] \<or> \<not> hangup c))"

definition available :: "WiFiClient \<Rightarrow> nat" where
  "available c = (if sock c then length (rxbuf c) else 0)"

text \<open>\<^verbatim>\<open>c.read(buf, n)\<close>: at most \<open>n\<close> of the buffered bytes; the empty list stands for a
  return value that is not positive.\<close>

definition client_read :: "WiFiClient \<Rightarrow> nat \<Rightarrow> u8 list \<times> WiFiClient" where
  "client_read c n =
     (if sock c then (take n (rxbuf c), c\<lparr>rxbuf := drop n (rxbuf c)\<rparr>) else ([], c))"

definition client_stop :: "WiFiClient \<Rightarrow> WiFiClient" where
  "client_stop c = c\<lparr>sock := False, rxbuf := []\<rparr>"

text \<open>\<^verbatim>\<open>delay(1)\<close> as the client sees it: the next chunk of the script arrives.\<close>

definition delay1 :: "WiFiClient \<Rightarrow> WiFiClient" where
  "delay1 c = (case wire c of [] \<Rightarrow> c
               | ch # rest \<Rightarrow> c\<lparr>rxbuf := rxbuf c @ ch, wire := rest\<rparr>)"

definition no_client :: WiFiClient where
  "no_client = \<lparr>sock = False, rxbuf = [], wire = [], hangup = True\<rparr>"

record WiFiServer =
  pending :: "WiFiClient list"

text \<open>\<^verbatim>\<open>server.available()\<close>: the next waiting connection, or a client that is not one.\<close>

definition server_available :: "WiFiServer \<Rightarrow> WiFiClient \<times> WiFiServer" where
  "server_available srv = (case pending srv of [] \<Rightarrow> (no_client, srv)
                           | c # cs \<Rightarrow> (c, srv\<lparr>pending := cs\<rparr>))"

subsection \<open>readExactly (lines 85-96)\<close>

text \<open>
  The loop has no bound of its own: with a peer that stays connected and silent it never
  returns, and the model's value is then \<open>None\<close>. The result is the returned flag, the
  bytes copied to \<^verbatim>\<open>dst\<close> and the client.
\<close>

partial_function (option) readExactly_loop ::
  "WiFiClient \<Rightarrow> u8 list \<Rightarrow> nat \<Rightarrow> nat \<Rightarrow> (bool \<times> u8 list \<times> WiFiClient) option" where
  "readExactly_loop c dst len got =
     (if got < len \<and> connected c then
        (case client_read c (len - got) of
           (chunk, c') \<Rightarrow>
             if length chunk > 0 then readExactly_loop c' (dst @ chunk) len (got + length chunk)
             else readExactly_loop (delay1 c') dst len got)
      else Some (got = len, dst, c))"

definition readExactly :: "WiFiClient \<Rightarrow> nat \<Rightarrow> (bool \<times> u8 list \<times> WiFiClient) option" where
  "readExactly c len = readExactly_loop c [] len 0"

subsection \<open>The display\<close>

text \<open>
  The display is its size and the calls the sketch has made on it, in order, with the
  arguments as the sketch passes them. \<^verbatim>\<open>width()\<close> and \<^verbatim>\<open>height()\<close> return a 16-bit
  signed value that is not negative; the sketch compares and multiplies them as \<^verbatim>\<open>int\<close>,
  where nothing wraps, so the model keeps them as natural numbers.
\<close>

datatype gfx_op =
  DrawPixel u16 u16 u16
  | FillRect u16 u16 u16 nat u16
  | FillScreen u16

record Display =
  width :: nat
  height :: nat
  ops :: "gfx_op list"

definition Black :: u16 where
  "Black = 0"

definition drawPixel :: "u16 \<Rightarrow> u16 \<Rightarrow> u16 \<Rightarrow> Display \<Rightarrow> Display" where
  "drawPixel px py c d = d\<lparr>ops := ops d @ [DrawPixel px py c]\<rparr>"

definition fillRect :: "u16 \<Rightarrow> u16 \<Rightarrow> u16 \<Rightarrow> nat \<Rightarrow> u16 \<Rightarrow> Display \<Rightarrow> Display" where
  "fillRect px py w h c d = d\<lparr>ops := ops d @ [FillRect px py w h c]\<rparr>"

definition fillScreen :: "u16 \<Rightarrow> Display \<Rightarrow> Display" where
  "fillScreen c d = d\<lparr>ops := ops d @ [FillScreen c]\<rparr>"

text \<open>The pixels one call addresses, as (column, row) pairs.\<close>

fun op_pixels :: "Display \<Rightarrow> gfx_op \<Rightarrow> (nat \<times> nat) list" where
  "op_pixels d (DrawPixel px py c) = [(unat px, unat py)]"
| "op_pixels d (FillRect px py w h c) =
     concat (map (\<lambda>j. map (\<lambda>i. (unat px + i, unat py + j)) [0..<unat w]) [0..<h])"
| "op_pixels d (FillScreen c) =
     concat (map (\<lambda>j. map (\<lambda>i. (i, j)) [0..<width d]) [0..<height d])"

subsection \<open>The heap\<close>

text \<open>
  Two pools, the PSRAM that \<^verbatim>\<open>ps_malloc\<close> serves and the internal RAM of \<^verbatim>\<open>malloc\<close>,
  each with a number of free bytes. A request succeeds when it is not empty and fits (a
  request for 0 bytes returns null, as the allocator of the ESP32 does); a failed request
  leaves the heap as it was. A block is its address, its pool and its size.
\<close>

datatype pool = PSRAM | Internal

record heap =
  psram_free :: nat
  ram_free :: nat
  blocks :: "(nat \<times> pool \<times> nat) list"
  brk :: nat

definition ps_malloc :: "nat \<Rightarrow> heap \<Rightarrow> nat option \<times> heap" where
  "ps_malloc sz h =
     (if sz = 0 \<or> psram_free h < sz then (None, h)
      else (Some (brk h),
            h\<lparr>psram_free := psram_free h - sz,
              blocks := (brk h, PSRAM, sz) # blocks h,
              brk := brk h + sz\<rparr>))"

definition malloc :: "nat \<Rightarrow> heap \<Rightarrow> nat option \<times> heap" where
  "malloc sz h =
     (if sz = 0 \<or> ram_free h < sz then (None, h)
      else (Some (brk h),
            h\<lparr>ram_free := ram_free h - sz,
              blocks := (brk h, Internal, sz) # blocks h,
              brk := brk h + sz\<rparr>))"

fun free_block :: "nat \<Rightarrow> (nat \<times> pool \<times> nat) list \<Rightarrow> heap \<Rightarrow> heap" where
  "free_block p [] h = h"
| "free_block p ((a, pl, sz) # bs) h =
     (if a = p then
        (case pl of
           PSRAM \<Rightarrow> h\<lparr>psram_free := psram_free h + sz, blocks := filter (\<lambda>b. fst b \<noteq> p) (blocks h)\<rparr>
         | Internal \<Rightarrow> h\<lparr>ram_free := ram_free h + sz, blocks := filter (\<lambda>b. fst b \<noteq> p) (blocks h)\<rparr>)
      else free_block p bs h)"

definition free :: "nat \<Rightarrow> heap \<Rightarrow> heap" where
  "free p h = free_block p (blocks h) h"

definition live :: "heap \<Rightarrow> nat \<Rightarrow> bool" where
  "live h p = (p \<in> fst ` set (blocks h))"

subsection \<open>The serial console\<close>

datatype serial_out =
  Print string
  | Println string
  | PrintNum nat
  | PrintlnNum nat
  | PrintlnHex nat

subsection \<open>The globals (lines 37-62)\<close>

text \<open>
  \<open>updateBuffer\<close> is the pointer (\<open>None\<close> for \<^verbatim>\<open>nullptr\<close>) and \<open>bufferData\<close> the entries of
  the block it points to. \<open>millis\<close> is the reading of the clock that the call will get.
\<close>

record state =
  server :: WiFiServer
  client :: WiFiClient
  display :: Display
  serial :: "serial_out list"
  heap_of :: heap
  millis :: u32
  frameCount :: u32
  lastStats :: u32
  updatesApplied :: u32
  lastFrameId :: u32
  updateBuffer :: "nat option"
  bufferData :: "PixelUpdate list"
  bufferCapacity :: u32

definition fresh_entry :: PixelUpdate where
  "fresh_entry = \<lparr>upd_x = 0, upd_y = 0, upd_len = 0, upd_color = 0\<rparr>"

subsection \<open>ensureUpdateBuffer (lines 65-83)\<close>

text \<open>
  The size of the request is \<^verbatim>\<open>needed * sizeof(PixelUpdate)\<close> in 32-bit \<^verbatim>\<open>size_t\<close>
  arithmetic. The entries of a new block are indeterminate in C; the model fills them with
  \<open>fresh_entry\<close>, and the frame code reads no field of an entry before writing it.
\<close>

definition ensureUpdateBuffer :: "u32 \<Rightarrow> state \<Rightarrow> bool \<times> state" where
  "ensureUpdateBuffer needed s =
     (if needed \<le> bufferCapacity s \<and> updateBuffer s \<noteq> None then (True, s)
      else
        let sz = unat (needed * sizeof_PixelUpdate);
            (tmp, h1) = ps_malloc sz (heap_of s);
            (tmp, h2) = (if tmp = None then malloc sz h1 else (tmp, h1))
        in if tmp = None then
             (False, s\<lparr>heap_of := h2,
                       serial := serial s @ [Println ''Failed to allocate update buffer'']\<rparr>)
           else
             let h3 = (case updateBuffer s of None \<Rightarrow> h2 | Some old \<Rightarrow> free old h2)
             in (True, s\<lparr>heap_of := h3,
                         updateBuffer := tmp,
                         bufferData := replicate (sz div unat sizeof_PixelUpdate) fresh_entry,
                         bufferCapacity := needed\<rparr>))"

subsection \<open>Decoding little-endian fields\<close>

text \<open>\<^verbatim>\<open>lo | (hi << 8)\<close> stored to a \<^verbatim>\<open>uint16_t\<close>, and the four-byte frame id of lines 218
  and 289.\<close>

definition le16 :: "u8 \<Rightarrow> u8 \<Rightarrow> u16" where
  "le16 lo hi = ucast lo OR push_bit 8 (ucast hi)"

definition le32 :: "u8 \<Rightarrow> u8 \<Rightarrow> u8 \<Rightarrow> u8 \<Rightarrow> u32" where
  "le32 b0 b1 b2 b3 =
     ucast b0 OR push_bit 8 (ucast b1) OR push_bit 16 (ucast b2) OR push_bit 24 (ucast b3)"

subsection \<open>The periodic statistics line (lines 262-271 and 336-345)\<close>

definition report_stats :: "state \<Rightarrow> state" where
  "report_stats s =
     (let now = millis s
      in if now - lastStats s > 2000 then
           s\<lparr>serial := serial s @
                [Print ''Frames: '', PrintNum (unat (frameCount s)),
                 Print '' (last frameId '', PrintNum (unat (lastFrameId s)),
                 Print '') | Updates applied: '', PrintlnNum (unat (updatesApplied s))],
             lastStats := now\<rparr>
         else s)"

subsection \<open>The pixel packet (lines 204-273)\<close>

text \<open>The decode loop of lines 239-248. The flag is \<open>False\<close> when the loop has returned
  \<^verbatim>\<open>false\<close> from \<^verbatim>\<open>handleClient\<close>.\<close>

function pixel_decode :: "u16 \<Rightarrow> u16 \<Rightarrow> state \<Rightarrow> (bool \<times> state) option" where
  "pixel_decode i count s =
     (if i < count then
        (case readExactly (client s) 6 of
           None \<Rightarrow> None
         | Some (ok, entry, c) \<Rightarrow>
             if \<not> ok then
               Some (False,
                     s\<lparr>client := client_stop c,
                       serial := serial s @ [Println ''Stream ended mid-frame; dropping client'']\<rparr>)
             else
               pixel_decode (i + 1) count
                 (s\<lparr>client := c,
                    bufferData := (bufferData s)[unat i :=
                      (bufferData s ! unat i)
                        \<lparr>upd_x := le16 (entry ! 0) (entry ! 1),
                         upd_y := le16 (entry ! 2) (entry ! 3),
                         upd_color := le16 (entry ! 4) (entry ! 5)\<rparr>]\<rparr>))
      else Some (True, s))"
  by pat_completeness auto
termination
  by (relation "measure (\<lambda>(i, count, s). unat count - unat i)")
     (simp, clarsimp, unat_arith)

declare pixel_decode.simps [simp del]

text \<open>The apply loop of lines 251-258.\<close>

function pixel_apply :: "u16 \<Rightarrow> u16 \<Rightarrow> state \<Rightarrow> state" where
  "pixel_apply i count s =
     (if i < count then
        (let px = upd_x (bufferData s ! unat i);
             py = upd_y (bufferData s ! unat i)
         in pixel_apply (i + 1) count
              (if unat px < width (display s) \<and> unat py < height (display s) then
                 s\<lparr>display := drawPixel px py (upd_color (bufferData s ! unat i)) (display s),
                   updatesApplied := updatesApplied s + 1\<rparr>
               else s))
      else s)"
  by pat_completeness auto
termination
  by (relation "measure (\<lambda>(i, count, s). unat count - unat i)")
     (simp, clarsimp, unat_arith)

declare pixel_apply.simps [simp del]

text \<open>Lines 232-272: the buffer, the body, the apply loop and the statistics.\<close>

definition pixel_body :: "u32 \<Rightarrow> u16 \<Rightarrow> state \<Rightarrow> (bool \<times> state) option" where
  "pixel_body frameId count s =
     (case ensureUpdateBuffer (ucast count) s of
        (False, s2) \<Rightarrow>
          Some (False,
                s2\<lparr>client := client_stop (client s2),
                   serial := serial s2 @ [Println ''No buffer for updates; dropping client'']\<rparr>)
      | (True, s2) \<Rightarrow>
          (case pixel_decode 0 count s2 of
             None \<Rightarrow> None
           | Some (False, s3) \<Rightarrow> Some (False, s3)
           | Some (True, s3) \<Rightarrow>
               let s4 = pixel_apply 0 count s3;
                   s5 = s4\<lparr>frameCount := frameCount s4 + 1, lastFrameId := frameId\<rparr>
               in Some (True, report_stats s5)))"

text \<open>Lines 220-230, then the rest: the two tests on the count. The product of line
  225 is computed in \<^verbatim>\<open>int\<close>, where it does not overflow.\<close>

definition pixel_frame :: "u32 \<Rightarrow> u16 \<Rightarrow> state \<Rightarrow> (bool \<times> state) option" where
  "pixel_frame frameId count s =
     (if count = 0 then
        Some (True, s\<lparr>frameCount := frameCount s + 1, lastFrameId := frameId\<rparr>)
      else if unat count > width (display s) * height (display s) then
        Some (False,
              s\<lparr>client := client_stop (client s),
                serial := serial s @
                  [Print ''Update count too large: '', PrintlnNum (unat count)]\<rparr>)
      else pixel_body frameId count s)"

text \<open>Lines 205-219, entered once the magic has been recognised as \<open>MAGIC\<close>: the rest
  of the header.\<close>

definition pixel_packet :: "state \<Rightarrow> (bool \<times> state) option" where
  "pixel_packet s =
     (case readExactly (client s) (HEADER_SIZE - 4) of
        None \<Rightarrow> None
      | Some (ok, rest, c) \<Rightarrow>
          if \<not> ok then
            Some (False,
                  s\<lparr>client := client_stop c,
                    serial := serial s @ [Println ''Failed to read pixel header; dropping client'']\<rparr>)
          else if rest ! 0 \<noteq> PROTO_VERSION then
            Some (False,
                  s\<lparr>client := client_stop c,
                    serial := serial s @
                      [Print ''Unsupported pixel version: '', PrintlnHex (unat (rest ! 0))]\<rparr>)
          else
            let frameId = le32 (rest ! 1) (rest ! 2) (rest ! 3) (rest ! 4);
                count = le16 (rest ! 5) (rest ! 6)
            in pixel_frame frameId count (s\<lparr>client := c\<rparr>))"

subsection \<open>The run packet (lines 275-347)\<close>

text \<open>The decode loop of lines 311-321.\<close>

function run_decode :: "u16 \<Rightarrow> u16 \<Rightarrow> state \<Rightarrow> (bool \<times> state) option" where
  "run_decode i count s =
     (if i < count then
        (case readExactly (client s) 8 of
           None \<Rightarrow> None
         | Some (ok, entry, c) \<Rightarrow>
             if \<not> ok then
               Some (False,
                     s\<lparr>client := client_stop c,
                       serial := serial s @
                         [Println ''Stream ended mid-run frame; dropping client'']\<rparr>)
             else
               run_decode (i + 1) count
                 (s\<lparr>client := c,
                    bufferData := (bufferData s)[unat i :=
                      (bufferData s ! unat i)
                        \<lparr>upd_y := le16 (entry ! 0) (entry ! 1),
                         upd_x := le16 (entry ! 2) (entry ! 3),
                         upd_len := le16 (entry ! 4) (entry ! 5),
                         upd_color := le16 (entry ! 6) (entry ! 7)\<rparr>]\<rparr>))
      else Some (True, s))"
  by pat_completeness auto
termination
  by (relation "measure (\<lambda>(i, count, s). unat count - unat i)")
     (simp, clarsimp, unat_arith)

declare run_decode.simps [simp del]

text \<open>The apply loop of lines 324-332. \<^verbatim>\<open>x0 + runLen\<close> is computed in \<^verbatim>\<open>int\<close> and does not
  wrap.\<close>

function run_apply :: "u16 \<Rightarrow> u16 \<Rightarrow> state \<Rightarrow> state" where
  "run_apply i count s =
     (if i < count then
        (let x0 = upd_x (bufferData s ! unat i);
             py = upd_y (bufferData s ! unat i);
             runLen = upd_len (bufferData s ! unat i)
         in run_apply (i + 1) count
              (if unat x0 < width (display s) \<and> unat py < height (display s) \<and> runLen > 0
                  \<and> unat x0 + unat runLen \<le> width (display s) then
                 s\<lparr>display := fillRect x0 py runLen 1 (upd_color (bufferData s ! unat i)) (display s),
                   updatesApplied := updatesApplied s + ucast runLen\<rparr>
               else s))
      else s)"
  by pat_completeness auto
termination
  by (relation "measure (\<lambda>(i, count, s). unat count - unat i)")
     (simp, clarsimp, unat_arith)

declare run_apply.simps [simp del]

text \<open>Lines 303-347: the buffer, the body, the apply loop and the statistics.\<close>

definition run_body :: "u32 \<Rightarrow> u16 \<Rightarrow> state \<Rightarrow> (bool \<times> state) option" where
  "run_body frameId count s =
     (case ensureUpdateBuffer (ucast count) s of
        (False, s2) \<Rightarrow>
          Some (False,
                s2\<lparr>client := client_stop (client s2),
                   serial := serial s2 @ [Println ''No buffer for run updates; dropping client'']\<rparr>)
      | (True, s2) \<Rightarrow>
          (case run_decode 0 count s2 of
             None \<Rightarrow> None
           | Some (False, s3) \<Rightarrow> Some (False, s3)
           | Some (True, s3) \<Rightarrow>
               let s4 = run_apply 0 count s3;
                   s5 = s4\<lparr>frameCount := frameCount s4 + 1, lastFrameId := frameId\<rparr>
               in Some (True, report_stats s5)))"

text \<open>Lines 291-301, then the rest.\<close>

definition run_frame :: "u32 \<Rightarrow> u16 \<Rightarrow> state \<Rightarrow> (bool \<times> state) option" where
  "run_frame frameId count s =
     (if count = 0 then
        Some (True, s\<lparr>frameCount := frameCount s + 1, lastFrameId := frameId\<rparr>)
      else if unat count > width (display s) * height (display s) then
        Some (False,
              s\<lparr>client := client_stop (client s),
                serial := serial s @
                  [Print ''Run count too large: '', PrintlnNum (unat count)]\<rparr>)
      else run_body frameId count s)"

text \<open>Lines 276-290, reached when the magic is \<open>MAGIC_RUN\<close>: the rest of the header.\<close>

definition run_packet :: "state \<Rightarrow> (bool \<times> state) option" where
  "run_packet s =
     (case readExactly (client s) (RUN_HEADER_SIZE - 4) of
        None \<Rightarrow> None
      | Some (ok, rest, c) \<Rightarrow>
          if \<not> ok then
            Some (False,
                  s\<lparr>client := client_stop c,
                    serial := serial s @ [Println ''Failed to read run header; dropping client'']\<rparr>)
          else if rest ! 0 \<noteq> RUN_VERSION then
            Some (False,
                  s\<lparr>client := client_stop c,
                    serial := serial s @
                      [Print ''Unsupported run version: '', PrintlnHex (unat (rest ! 0))]\<rparr>)
          else
            let frameId = le32 (rest ! 1) (rest ! 2) (rest ! 3) (rest ! 4);
                count = le16 (rest ! 5) (rest ! 6)
            in run_frame frameId count (s\<lparr>client := c\<rparr>))"

subsection \<open>handleClient (lines 166-348)\<close>

text \<open>Lines 168-178: accepting a new client.\<close>

definition accept_client :: "state \<Rightarrow> state" where
  "accept_client s =
     (if \<not> client_bool (client s) \<or> \<not> connected (client s) then
        (case server_available (server s) of
           (c, srv) \<Rightarrow>
             let s1 = s\<lparr>client := c, server := srv\<rparr>
             in if client_bool c then
                  s1\<lparr>serial := serial s1 @ [Println ''Client connected''],
                     frameCount := 0,
                     updatesApplied := 0,
                     display := fillScreen Black (display s1)\<rparr>
                else s1)
      else s)"

text \<open>Lines 180-348: one step on the current client.\<close>

definition process_client :: "state \<Rightarrow> (bool \<times> state) option" where
  "process_client s =
     (if \<not> client_bool (client s) \<or> \<not> connected (client s) then Some (False, s)
      else if available (client s) < 11 then Some (True, s)
      else
        (case readExactly (client s) 4 of
           None \<Rightarrow> None
         | Some (ok, magicBuf, c) \<Rightarrow>
             if \<not> ok then Some (False, s\<lparr>client := client_stop c\<rparr>)
             else
               let isRun = (magicBuf = MAGIC_RUN);
                   isPixel = (magicBuf = MAGIC)
               in if \<not> isRun \<and> \<not> isPixel then
                    Some (False,
                          s\<lparr>client := client_stop c,
                            serial := serial s @ [Println ''Bad magic; flushing stream'']\<rparr>)
                  else if isPixel then pixel_packet (s\<lparr>client := c\<rparr>)
                  else run_packet (s\<lparr>client := c\<rparr>)))"

definition handleClient :: "state \<Rightarrow> (bool \<times> state) option" where
  "handleClient s = process_client (accept_client s)"

subsection \<open>The state at boot and example collaborators\<close>

text \<open>The globals as lines 37-62 initialise them, for a given display and heap.\<close>

definition boot :: "Display \<Rightarrow> heap \<Rightarrow> state" where
  "boot d h =
     \<lparr>server = \<lparr>pending = []\<rparr>, client = no_client, display = d, serial = [], heap_of = h,
      millis = 0, frameCount = 0, lastStats = 0, updatesApplied = 0, lastFrameId = 0,
      updateBuffer = None, bufferData = [], bufferCapacity = 0\<rparr>"

text \<open>The 280x240 display of the header comment, and a heap with room in both pools.\<close>

definition lilka_display :: Display where
  "lilka_display = \<lparr>width = 280, height = 240, ops = []\<rparr>"

definition roomy_heap :: heap where
  "roomy_heap = \<lparr>psram_free = 4194304, ram_free = 262144, blocks = [], brk = 1\<rparr>"

text \<open>A peer that has sent the given bytes and then closed the connection.\<close>

definition sent_then_closed :: "u8 list \<Rightarrow> WiFiClient" where
  "sent_then_closed bs = \<lparr>sock = True, rxbuf = bs, wire = [], hangup = True\<rparr>"

subsection \<open>Vocabulary of the apply phase\<close>

text \<open>The test of line 254 on one entry, and the call of line 255 for it.\<close>

definition in_bounds :: "Display \<Rightarrow> PixelUpdate \<Rightarrow> bool" where
  "in_bounds d e = (unat (upd_x e) < width d \<and> unat (upd_y e) < height d)"

definition pixel_op :: "PixelUpdate \<Rightarrow> gfx_op" where
  "pixel_op e = DrawPixel (upd_x e) (upd_y e) (upd_color e)"

text \<open>The test of line 328 on one entry, the call of line 329 for it, and the sum that
  line 330 adds over a list of entries.\<close>

definition run_fits :: "Display \<Rightarrow> PixelUpdate \<Rightarrow> bool" where
  "run_fits d e = (unat (upd_x e) < width d \<and> unat (upd_y e) < height d \<and> upd_len e > 0
                   \<and> unat (upd_x e) + unat (upd_len e) \<le> width d)"

definition run_op :: "PixelUpdate \<Rightarrow> gfx_op" where
  "run_op e = FillRect (upd_x e) (upd_y e) (upd_len e) 1 (upd_color e)"

definition run_total :: "PixelUpdate list \<Rightarrow> u32" where
  "run_total es = sum_list (map (\<lambda>e. ucast (upd_len e)) es)"

definition runs3 :: "PixelUpdate list" where
  "runs3 = [\<lparr>upd_x = 5, upd_y = 10, upd_len = 20, upd_color = 0x07E0\<rparr>,
            \<lparr>upd_x = 270, upd_y = 10, upd_len = 20, upd_color = 7\<rparr>,
            \<lparr>upd_x = 277, upd_y = 239, upd_len = 3, upd_color = 1\<rparr>]"

subsection \<open>Vocabulary of the update buffer\<close>

text \<open>The size in bytes that line 69 and line 71 ask for.\<close>

definition request_bytes :: "u32 \<Rightarrow> nat" where
  "request_bytes needed = unat (needed * sizeof_PixelUpdate)"

text \<open>A null buffer pointer goes with a capacity of zero: so the globals start, and so
  \<open>ensureUpdateBuffer\<close> keeps them.\<close>

definition buffer_inv :: "state \<Rightarrow> bool" where
  "buffer_inv s = (updateBuffer s = None \<longrightarrow> bufferCapacity s = 0)"


text \<open>A heap that is nearly full and holds one block of two entries, and a state whose
  update buffer is that block.\<close>

definition tight_heap :: heap where
  "tight_heap = \<lparr>psram_free = 100, ram_free = 50, blocks = [(1, PSRAM, 16)], brk = 17\<rparr>"

definition holding2 :: "heap \<Rightarrow> state" where
  "holding2 h = (boot lilka_display h)
      \<lparr>updateBuffer := Some 1, bufferData := [fresh_entry, fresh_entry], bufferCapacity := 2\<rparr>"

subsection \<open>Vocabulary of frames and example states\<close>

text \<open>The two pairs of magic and version that lines 195-196, 211 and 282 accept.\<close>

definition valid_kind :: "u8 list \<Rightarrow> u8 \<Rightarrow> bool" where
  "valid_kind magic ver =
     ((magic = MAGIC \<and> ver = PROTO_VERSION) \<or> (magic = MAGIC_RUN \<and> ver = RUN_VERSION))"

text \<open>The state at boot with a roomy heap, a given display and a given current client.\<close>

definition with_client :: "Display \<Rightarrow> WiFiClient \<Rightarrow> state" where
  "with_client d c = (boot d roomy_heap)\<lparr>client := c\<rparr>"

definition small_display :: Display where
  "small_display = \<lparr>width = 100, height = 100, ops = []\<rparr>"

text \<open>Scenario A of the specification: a pixel frame, frame id 7, with the one entry
  (0, 0, 0xFFFF).\<close>

definition scenario_A :: state where
  "scenario_A = with_client lilka_display
     (sent_then_closed (MAGIC @ [PROTO_VERSION, 7, 0, 0, 0, 1, 0] @ [0, 0, 0, 0, 0xFF, 0xFF]))"

text \<open>Scenario E: the header of a pixel frame with count 50000 = 0xC350 on the 280x240
  display; the peer closes before any body byte.\<close>

definition scenario_E :: state where
  "scenario_E = with_client lilka_display
     (sent_then_closed (MAGIC @ [PROTO_VERSION, 9, 0, 0, 0, 0x50, 0xC3] @ []))"

text \<open>A pixel frame with count 0 on the 280x240 display.\<close>

definition empty_frame_state :: state where
  "empty_frame_state = with_client lilka_display
     (sent_then_closed (MAGIC @ [PROTO_VERSION, 7, 0, 0, 0, 0, 0] @ []))"

text \<open>A peer that has connected and not yet sent anything, and the state left by an
  earlier connection (three frames, the last with id 7) when that peer is waiting.\<close>

definition quiet_peer :: WiFiClient where
  "quiet_peer = \<lparr>sock = True, rxbuf = [], wire = [], hangup = False\<rparr>"

definition after_session :: state where
  "after_session = (boot lilka_display roomy_heap)
      \<lparr>server := \<lparr>pending = [quiet_peer]\<rparr>,
       frameCount := 3, updatesApplied := 12, lastFrameId := 7\<rparr>"

subsection \<open>Vocabulary of truncated frames\<close>

text \<open>All the bytes a client will still deliver: those buffered, then those of its script.\<close>

definition incoming :: "WiFiClient \<Rightarrow> u8 list" where
  "incoming c = rxbuf c @ concat (wire c)"

text \<open>The size of one body entry of each kind (lines 238 and 310), and the message that
  the decode loop of each kind prints when a read fails (lines 241 and 313).\<close>

definition entry_size :: "u8 list \<Rightarrow> nat" where
  "entry_size magic = (if magic = MAGIC then 6 else 8)"

definition truncation_message :: "u8 list \<Rightarrow> string" where
  "truncation_message magic =
     (if magic = MAGIC then ''Stream ended mid-frame; dropping client''
      else ''Stream ended mid-run frame; dropping client'')"

text \<open>The client is stopped, and the display and the statistics are as before.\<close>

definition dropped_untouched :: "state \<Rightarrow> state \<Rightarrow> bool" where
  "dropped_untouched s s' =
     (display s' = display s \<and> \<not> sock (client s') \<and> frameCount s' = frameCount s
      \<and> lastFrameId s' = lastFrameId s \<and> updatesApplied s' = updatesApplied s)"

text \<open>A pixel frame that announces two entries; the peer closes after the first entry and
  three bytes of the second. And the state in which \<open>handleClient\<close> leaves it.\<close>

definition truncated_frame :: state where
  "truncated_frame = with_client lilka_display
     (sent_then_closed (MAGIC @ [PROTO_VERSION, 7, 0, 0, 0, 2, 0] @ [1, 0, 2, 0, 3, 0, 4, 0, 5]))"

definition truncated_result :: state where
  "truncated_result = (with_client lilka_display (client_stop (sent_then_closed [])))
        \<lparr>serial := [Println ''Stream ended mid-frame; dropping client''],
         heap_of := \<lparr>psram_free = 4194288, ram_free = 262144, blocks = [(1, PSRAM, 16)], brk = 17\<rparr>,
         updateBuffer := Some 1,
         bufferData := [\<lparr>upd_x = 1, upd_y = 2, upd_len = 0, upd_color = 3\<rparr>, fresh_entry],
         bufferCapacity := 2\<rparr>"

text \<open>A run frame that announces one run; three of its eight bytes are buffered, three
  more arrive in two pieces, and then the peer closes.\<close>

definition truncated_run :: state where
  "truncated_run = with_client lilka_display
     \<lparr>sock = True, rxbuf = MAGIC_RUN @ [RUN_VERSION, 8, 0, 0, 0, 1, 0] @ [10, 0, 5],
      wire = [[0], [20, 0]], hangup = True\<rparr>"

text \<open>Five bytes of a header from a peer that is still there; and ten bytes of a header
  from a peer that has closed.\<close>

definition partial_header :: state where
  "partial_header = with_client lilka_display
     \<lparr>sock = True, rxbuf = MAGIC @ [PROTO_VERSION], wire = [], hangup = False\<rparr>"

definition mid_header_closed :: state where
  "mid_header_closed = with_client lilka_display
     (sent_then_closed (MAGIC @ [PROTO_VERSION, 7, 0, 0, 0, 1]))"

subsection \<open>Vocabulary of the buffer across calls\<close>

text \<open>The block behind \<open>updateBuffer\<close> has as many entries as \<open>bufferCapacity\<close> says; with
  \<open>buffer_inv\<close> this is the condition under which the loops index inside the block.\<close>

definition buffer_sized :: "state \<Rightarrow> bool" where
  "buffer_sized s = (length (bufferData s) = unat (bufferCapacity s))"

definition buffer_ok :: "state \<Rightarrow> bool" where
  "buffer_ok s = (buffer_inv s \<and> buffer_sized s)"

text \<open>A step keeps the buffer in order and does not lower the capacity.\<close>

definition buffer_step :: "state \<Rightarrow> state \<Rightarrow> bool" where
  "buffer_step s s' = (buffer_ok s \<longrightarrow> buffer_ok s' \<and> bufferCapacity s \<le> bufferCapacity s')"

subsection \<open>Vocabulary of a blocked read\<close>

text \<open>A peer that holds the connection open and has nothing buffered or under way.\<close>

definition silent :: "WiFiClient \<Rightarrow> bool" where
  "silent c = (sock c \<and> rxbuf c = [] \<and> wire c = [] \<and> \<not> hangup c)"

section \<open>Properties\<close>

subsection \<open>Auxiliary facts\<close>

lemma word_succ: "i < (m::16 word) \<Longrightarrow> unat (i + 1) = Suc (unat i)"
  by unat_arith

lemma drop_take_step:
  "i < n \<Longrightarrow> n \<le> length xs \<Longrightarrow> drop i (take n xs) = xs ! i # drop (Suc i) (take n xs)"
  by (metis Cons_nth_drop_Suc length_take min.absorb2 nth_take)

lemma in_bounds_ops [simp]: "in_bounds (d\<lparr>ops := l\<rparr>) = in_bounds d"
  by (rule ext) (simp add: in_bounds_def)

subsection \<open>The pixel apply loop\<close>

lemma pixel_apply_from:
  "unat count \<le> length (bufferData s) \<Longrightarrow> i \<le> count \<Longrightarrow>
   pixel_apply i count s =
     s\<lparr>display := (display s)\<lparr>ops := ops (display s) @
          map pixel_op (filter (in_bounds (display s)) (drop (unat i) (take (unat count) (bufferData s))))\<rparr>,
       updatesApplied := updatesApplied s +
          of_nat (length (filter (in_bounds (display s)) (drop (unat i) (take (unat count) (bufferData s)))))\<rparr>"
proof (induction "unat count - unat i" arbitrary: i s)
  case 0
  then have "i = count" by (simp add: word_le_nat_alt word_unat_eq_iff)
  then show ?case by (subst pixel_apply.simps) simp
next
  case (Suc n)
  let ?e = "bufferData s ! unat i"
  have True: "i < count" using Suc.hyps(2) by (simp add: word_less_nat_alt)
  have su: "unat (i + 1) = Suc (unat i)" using True by (rule word_succ)
  have le: "i + 1 \<le> count" using True by (rule inc_le)
  have lt: "unat i < unat count" using True by (simp add: word_less_nat_alt)
  have n: "n = unat count - unat (i + 1)" using Suc.hyps(2) su by simp
  have dt: "drop (unat i) (take (unat count) (bufferData s)) =
            ?e # drop (Suc (unat i)) (take (unat count) (bufferData s))"
    using lt Suc.prems(1) by (rule drop_take_step)
  show ?case
  proof (cases "in_bounds (display s) ?e")
    case ib: True
    let ?s1 = "s\<lparr>display := drawPixel (upd_x ?e) (upd_y ?e) (upd_color ?e) (display s),
                 updatesApplied := updatesApplied s + 1\<rparr>"
    have step: "pixel_apply i count s = pixel_apply (i + 1) count ?s1"
      using True ib by (subst pixel_apply.simps) (simp add: in_bounds_def Let_def)
    have len: "unat count \<le> length (bufferData ?s1)" using Suc.prems(1) by simp
    show ?thesis
      unfolding step Suc.hyps(1)[OF n len le] using ib
      by (simp add: su dt drawPixel_def pixel_op_def add.assoc)
  next
    case ob: False
    have step: "pixel_apply i count s = pixel_apply (i + 1) count s"
      using True ob by (subst pixel_apply.simps) (auto simp: in_bounds_def Let_def)
    show ?thesis
      unfolding step Suc.hyps(1)[OF n Suc.prems(1) le] using ob
      by (simp add: su dt)
  qed
qed

text \<open>
  Claim C1. The apply phase of a pixel frame (lines 251-258), run on a buffer that holds the
  \<open>count\<close> decoded entries, issues one \<open>drawPixel\<close> call for each entry with
  \<open>x < width\<close> and \<open>y < height\<close>, in the order of the entries, and adds one to
  \<open>updatesApplied\<close> for each of them. An entry out of bounds issues no call and adds
  nothing, and the entries after it are still applied. Nothing else of the state changes.
  The bound \<open>count \<le> width * height\<close> of the claim is not needed; that the buffer holds
  \<open>count\<close> entries whenever \<open>handleClient\<close> reaches the loop is \<open>pixel_body_applies\<close>
  below.
\<close>

theorem pixel_apply_each_in_bounds_entry_once:
  assumes "unat count \<le> length (bufferData s)"
  shows "pixel_apply 0 count s =
     s\<lparr>display := (display s)\<lparr>ops := ops (display s) @
          map pixel_op (filter (in_bounds (display s)) (take (unat count) (bufferData s)))\<rparr>,
       updatesApplied := updatesApplied s +
          of_nat (length (filter (in_bounds (display s)) (take (unat count) (bufferData s))))\<rparr>"
  using pixel_apply_from [OF assms, of 0] by simp

theorem pixel_apply_each_in_bounds_entry_once_witness:
  "unat (3 :: u16) \<le> length
     [\<lparr>upd_x = 0, upd_y = 0, upd_len = 0, upd_color = 0xFFFF\<rparr>,
      \<lparr>upd_x = 280, upd_y = 5, upd_len = 0, upd_color = 7\<rparr>,
      \<lparr>upd_x = 279, upd_y = 239, upd_len = 0, upd_color = 1\<rparr>]
   \<and> ops (display (pixel_apply 0 3
        ((boot lilka_display roomy_heap)
           \<lparr>bufferData :=
              [\<lparr>upd_x = 0, upd_y = 0, upd_len = 0, upd_color = 0xFFFF\<rparr>,
               \<lparr>upd_x = 280, upd_y = 5, upd_len = 0, upd_color = 7\<rparr>,
               \<lparr>upd_x = 279, upd_y = 239, upd_len = 0, upd_color = 1\<rparr>]\<rparr>)))
     = [DrawPixel 0 0 0xFFFF, DrawPixel 279 239 1]
   \<and> updatesApplied (pixel_apply 0 3
        ((boot lilka_display roomy_heap)
           \<lparr>bufferData :=
              [\<lparr>upd_x = 0, upd_y = 0, upd_len = 0, upd_color = 0xFFFF\<rparr>,
               \<lparr>upd_x = 280, upd_y = 5, upd_len = 0, upd_color = 7\<rparr>,
               \<lparr>upd_x = 279, upd_y = 239, upd_len = 0, upd_color = 1\<rparr>]\<rparr>))
     = 2"
  using pixel_apply_each_in_bounds_entry_once [of 3
        "(boot lilka_display roomy_heap)
           \<lparr>bufferData :=
              [\<lparr>upd_x = 0, upd_y = 0, upd_len = 0, upd_color = 0xFFFF\<rparr>,
               \<lparr>upd_x = 280, upd_y = 5, upd_len = 0, upd_color = 7\<rparr>,
               \<lparr>upd_x = 279, upd_y = 239, upd_len = 0, upd_color = 1\<rparr>]\<rparr>"]
  by (simp add: boot_def lilka_display_def in_bounds_def pixel_op_def)

subsection \<open>The run apply loop\<close>

lemma run_fits_ops [simp]: "run_fits (d\<lparr>ops := l\<rparr>) = run_fits d"
  by (rule ext) (simp add: run_fits_def)

lemma run_apply_from:
  "unat count \<le> length (bufferData s) \<Longrightarrow> i \<le> count \<Longrightarrow>
   run_apply i count s =
     s\<lparr>display := (display s)\<lparr>ops := ops (display s) @
          map run_op (filter (run_fits (display s)) (drop (unat i) (take (unat count) (bufferData s))))\<rparr>,
       updatesApplied := updatesApplied s +
          run_total (filter (run_fits (display s)) (drop (unat i) (take (unat count) (bufferData s))))\<rparr>"
proof (induction "unat count - unat i" arbitrary: i s)
  case 0
  then have "i = count" by (simp add: word_le_nat_alt word_unat_eq_iff)
  then show ?case by (subst run_apply.simps) (simp add: run_total_def)
next
  case (Suc n)
  let ?e = "bufferData s ! unat i"
  have True: "i < count" using Suc.hyps(2) by (simp add: word_less_nat_alt)
  have su: "unat (i + 1) = Suc (unat i)" using True by (rule word_succ)
  have le: "i + 1 \<le> count" using True by (rule inc_le)
  have lt: "unat i < unat count" using True by (simp add: word_less_nat_alt)
  have n: "n = unat count - unat (i + 1)" using Suc.hyps(2) su by simp
  have dt: "drop (unat i) (take (unat count) (bufferData s)) =
            ?e # drop (Suc (unat i)) (take (unat count) (bufferData s))"
    using lt Suc.prems(1) by (rule drop_take_step)
  show ?case
  proof (cases "run_fits (display s) ?e")
    case fits: True
    let ?s1 = "s\<lparr>display := fillRect (upd_x ?e) (upd_y ?e) (upd_len ?e) 1 (upd_color ?e) (display s),
                 updatesApplied := updatesApplied s + ucast (upd_len ?e)\<rparr>"
    have step: "run_apply i count s = run_apply (i + 1) count ?s1"
      using True fits by (subst run_apply.simps) (simp add: run_fits_def Let_def)
    have len: "unat count \<le> length (bufferData ?s1)" using Suc.prems(1) by simp
    show ?thesis
      unfolding step Suc.hyps(1)[OF n len le] using fits
      by (simp add: su dt fillRect_def run_op_def run_total_def add.assoc)
  next
    case nofit: False
    have step: "run_apply i count s = run_apply (i + 1) count s"
      using True nofit by (subst run_apply.simps) (auto simp: run_fits_def Let_def)
    show ?thesis
      unfolding step Suc.hyps(1)[OF n Suc.prems(1) le] using nofit
      by (simp add: su dt)
  qed
qed

lemma run_fits_iff:
  "run_fits d e \<longleftrightarrow>
     unat (upd_y e) < height d \<and> 0 < upd_len e \<and> unat (upd_x e) + unat (upd_len e) \<le> width d"
proof -
  have "0 < upd_len e \<Longrightarrow> 0 < unat (upd_len e)"
    by (simp add: word_greater_zero_iff unat_gt_0)
  then show ?thesis unfolding run_fits_def by auto
qed

lemma run_op_pixels:
  "op_pixels d (run_op e) = map (\<lambda>k. (unat (upd_x e) + k, unat (upd_y e))) [0..<unat (upd_len e)]"
  by (simp add: run_op_def)

text \<open>
  Claim C2. The apply phase of a run frame (lines 324-332), on a buffer that holds the
  \<open>count\<close> decoded runs, issues one \<open>fillRect\<close> call of height 1 and of the run's whole
  length for each run that passes the test of line 328, in order, and adds the sum of those
  lengths to \<open>updatesApplied\<close>; a run that fails the test issues no call and adds nothing.
  The test holds exactly when \<open>y < height\<close>, \<open>length > 0\<close> and \<open>x0 + length \<le> width\<close>.
  The call of a run addresses exactly its \<open>length\<close> pixels of row \<open>y\<close>, from column
  \<open>x0\<close> on, and for a run that passes the test all of them lie on the display.
\<close>

theorem run_apply_whole_runs:
  assumes "unat count \<le> length (bufferData s)"
  shows "run_apply 0 count s =
     s\<lparr>display := (display s)\<lparr>ops := ops (display s) @
          map run_op (filter (run_fits (display s)) (take (unat count) (bufferData s)))\<rparr>,
       updatesApplied := updatesApplied s +
          run_total (filter (run_fits (display s)) (take (unat count) (bufferData s)))\<rparr>
    \<and> (run_fits (display s) e \<longleftrightarrow>
           unat (upd_y e) < height (display s) \<and> 0 < upd_len e
           \<and> unat (upd_x e) + unat (upd_len e) \<le> width (display s))
    \<and> op_pixels (display s) (run_op e) =
           map (\<lambda>k. (unat (upd_x e) + k, unat (upd_y e))) [0..<unat (upd_len e)]
    \<and> (run_fits (display s) e \<longrightarrow>
           (\<forall>p \<in> set (op_pixels (display s) (run_op e)).
              fst p < width (display s) \<and> snd p < height (display s)))"
proof -
  have a: "run_apply 0 count s =
     s\<lparr>display := (display s)\<lparr>ops := ops (display s) @
          map run_op (filter (run_fits (display s)) (take (unat count) (bufferData s)))\<rparr>,
       updatesApplied := updatesApplied s +
          run_total (filter (run_fits (display s)) (take (unat count) (bufferData s)))\<rparr>"
    using run_apply_from [OF assms, of 0] by simp
  have d: "run_fits (display s) e \<longrightarrow>
           (\<forall>p \<in> set (op_pixels (display s) (run_op e)).
              fst p < width (display s) \<and> snd p < height (display s))"
    by (auto simp: run_op_pixels run_fits_def)
  show ?thesis using a d run_fits_iff [of "display s" e] run_op_pixels [of "display s" e]
    by blast
qed

theorem run_apply_whole_runs_witness:
  "unat (3 :: u16) \<le> length runs3
   \<and> ops (display (run_apply 0 3 ((boot lilka_display roomy_heap)\<lparr>bufferData := runs3\<rparr>)))
     = [FillRect 5 10 20 1 0x07E0, FillRect 277 239 3 1 1]
   \<and> updatesApplied (run_apply 0 3 ((boot lilka_display roomy_heap)\<lparr>bufferData := runs3\<rparr>)) = 23
   \<and> run_fits lilka_display (runs3 ! 2)
   \<and> op_pixels lilka_display (run_op (runs3 ! 2)) = [(277, 239), (278, 239), (279, 239)]"
  using run_apply_whole_runs [of 3 "(boot lilka_display roomy_heap)\<lparr>bufferData := runs3\<rparr>" "runs3 ! 2"]
  by (simp add: boot_def lilka_display_def run_fits_def run_op_def run_total_def runs3_def
        upt_rec [of _ "numeral _"] upt_rec [of _ "Suc _"])

subsection \<open>The update buffer\<close>

lemma ensure_noop:
  "needed \<le> bufferCapacity s \<Longrightarrow> updateBuffer s \<noteq> None \<Longrightarrow> ensureUpdateBuffer needed s = (True, s)"
  by (simp add: ensureUpdateBuffer_def)

lemma ensure_false:
  "\<not> fst (ensureUpdateBuffer needed s) \<Longrightarrow>
   snd (ensureUpdateBuffer needed s) = s\<lparr>serial := serial s @ [Println ''Failed to allocate update buffer'']\<rparr>"
  by (auto simp: ensureUpdateBuffer_def ps_malloc_def malloc_def Let_def split: if_splits prod.splits)

lemma ensure_fails:
  "\<not> (needed \<le> bufferCapacity s \<and> updateBuffer s \<noteq> None) \<Longrightarrow>
   fst (ps_malloc (request_bytes needed) (heap_of s)) = None \<Longrightarrow>
   fst (malloc (request_bytes needed) (snd (ps_malloc (request_bytes needed) (heap_of s)))) = None \<Longrightarrow>
   \<not> fst (ensureUpdateBuffer needed s)"
  by (auto simp: ensureUpdateBuffer_def request_bytes_def ps_malloc_def malloc_def Let_def split: if_splits prod.splits)

lemma ensure_freed_only_on_success:
  "live (heap_of s) old \<Longrightarrow> \<not> live (heap_of (snd (ensureUpdateBuffer needed s))) old \<Longrightarrow>
   fst (ensureUpdateBuffer needed s) \<and> updateBuffer (snd (ensureUpdateBuffer needed s)) \<noteq> None
   \<and> bufferCapacity (snd (ensureUpdateBuffer needed s)) = needed"
  by (auto simp: ensureUpdateBuffer_def ps_malloc_def malloc_def Let_def split: if_splits prod.splits)

lemma ensure_grow:
  "\<not> (needed \<le> bufferCapacity s \<and> updateBuffer s \<noteq> None) \<Longrightarrow> fst (ensureUpdateBuffer needed s) \<Longrightarrow>
   bufferCapacity (snd (ensureUpdateBuffer needed s)) = needed \<and> needed \<noteq> 0
   \<and> updateBuffer (snd (ensureUpdateBuffer needed s)) \<noteq> None"
  by (auto simp: ensureUpdateBuffer_def ps_malloc_def malloc_def Let_def sizeof_PixelUpdate_def split: if_splits prod.splits)

text \<open>
  Claim C7. When \<open>ensureUpdateBuffer\<close> has to allocate and both \<open>ps_malloc\<close> and
  \<open>malloc\<close> return null, it returns \<open>False\<close>. Whenever it returns \<open>False\<close>, the
  state is the one before the call but for the line on the serial console: the buffer
  pointer, the capacity, the entries and the heap are unchanged. A block that was live
  before the call and is not after it was released by a call that returned \<open>True\<close> and
  left a buffer of the requested capacity.
\<close>

theorem ensureUpdateBuffer_failure_keeps_buffer:
  "(\<not> (needed \<le> bufferCapacity s \<and> updateBuffer s \<noteq> None)
      \<and> fst (ps_malloc (request_bytes needed) (heap_of s)) = None
      \<and> fst (malloc (request_bytes needed) (snd (ps_malloc (request_bytes needed) (heap_of s)))) = None
     \<longrightarrow> \<not> fst (ensureUpdateBuffer needed s))
   \<and> (\<not> fst (ensureUpdateBuffer needed s)
     \<longrightarrow> snd (ensureUpdateBuffer needed s) =
           s\<lparr>serial := serial s @ [Println ''Failed to allocate update buffer'']\<rparr>)
   \<and> (live (heap_of s) old \<and> \<not> live (heap_of (snd (ensureUpdateBuffer needed s))) old
     \<longrightarrow> fst (ensureUpdateBuffer needed s)
         \<and> updateBuffer (snd (ensureUpdateBuffer needed s)) \<noteq> None
         \<and> bufferCapacity (snd (ensureUpdateBuffer needed s)) = needed)"
  using ensure_fails [of needed s] ensure_false [of needed s] ensure_freed_only_on_success [of s old needed]
  by blast

theorem ensureUpdateBuffer_failure_keeps_buffer_witness:
  "ensureUpdateBuffer 100 (holding2 tight_heap) =
     (False, (holding2 tight_heap)\<lparr>serial := [Println ''Failed to allocate update buffer'']\<rparr>)
   \<and> updateBuffer (snd (ensureUpdateBuffer 100 (holding2 tight_heap))) = Some 1
   \<and> bufferCapacity (snd (ensureUpdateBuffer 100 (holding2 tight_heap))) = 2
   \<and> live (heap_of (snd (ensureUpdateBuffer 100 (holding2 tight_heap)))) 1
   \<and> live (heap_of (holding2 tight_heap)) 1
   \<and> \<not> live (heap_of (snd (ensureUpdateBuffer 5 (holding2 tight_heap)))) 1
   \<and> fst (ensureUpdateBuffer 5 (holding2 tight_heap))
   \<and> bufferCapacity (snd (ensureUpdateBuffer 5 (holding2 tight_heap))) = 5"
  using ensureUpdateBuffer_failure_keeps_buffer [of 100 "holding2 tight_heap" 1]
        ensureUpdateBuffer_failure_keeps_buffer [of 5 "holding2 tight_heap" 1]
  by (simp add: holding2_def tight_heap_def boot_def request_bytes_def sizeof_PixelUpdate_def
        ps_malloc_def malloc_def live_def ensureUpdateBuffer_def free_def)

lemma ensure_capacity_cases:
  "snd (ensureUpdateBuffer n s) = s \<or> bufferCapacity (snd (ensureUpdateBuffer n s)) = bufferCapacity s \<and> \<not> fst (ensureUpdateBuffer n s) \<and> updateBuffer (snd (ensureUpdateBuffer n s)) = updateBuffer s
   \<or> \<not> (n \<le> bufferCapacity s \<and> updateBuffer s \<noteq> None) \<and> fst (ensureUpdateBuffer n s)"
proof (cases "n \<le> bufferCapacity s \<and> updateBuffer s \<noteq> None")
  case True
  then show ?thesis by (simp add: ensure_noop)
next
  case False
  show ?thesis
  proof (cases "fst (ensureUpdateBuffer n s)")
    case True
    with False show ?thesis by simp
  next
    case nf: False
    then show ?thesis using ensure_false [OF nf] by simp
  qed
qed

lemma ensure_grow_larger:
  assumes "buffer_inv s" "\<not> (n \<le> bufferCapacity s \<and> updateBuffer s \<noteq> None)" "fst (ensureUpdateBuffer n s)"
  shows "bufferCapacity (snd (ensureUpdateBuffer n s)) = n \<and> bufferCapacity s < n"
proof -
  from ensure_grow [OF assms(2,3)]
  have g: "bufferCapacity (snd (ensureUpdateBuffer n s)) = n" "n \<noteq> 0" by simp_all
  have "bufferCapacity s < n"
  proof (cases "updateBuffer s")
    case None
    then have "bufferCapacity s = 0" using assms(1) by (simp add: buffer_inv_def)
    then show ?thesis using g(2) by (simp add: word_greater_zero_iff)
  next
    case (Some a)
    then show ?thesis using assms(2) by simp
  qed
  with g show ?thesis by simp
qed

lemma ensure_monotone:
  assumes "buffer_inv s"
  shows "bufferCapacity s \<le> bufferCapacity (snd (ensureUpdateBuffer n s))"
  using ensure_capacity_cases [of n s] ensure_grow_larger [OF assms, of n]
  by (auto simp: less_imp_le)

lemma ensure_inv:
  assumes "buffer_inv s"
  shows "buffer_inv (snd (ensureUpdateBuffer n s))"
  using ensure_capacity_cases [of n s] ensure_grow [of n s] assms
  by (auto simp: buffer_inv_def)






subsection \<open>Reading from a client\<close>

lemma readExactly_buffered:
  assumes "sock c" "n \<le> length (rxbuf c)"
  shows "readExactly c n = Some (True, take n (rxbuf c), c\<lparr>rxbuf := drop n (rxbuf c)\<rparr>)"
proof (cases "n = 0")
  case True
  then show ?thesis unfolding readExactly_def by (subst readExactly_loop.simps) simp
next
  case False
  then have ne: "rxbuf c \<noteq> []" using assms(2) by auto
  have first: "readExactly_loop c [] n 0 =
      readExactly_loop (c\<lparr>rxbuf := drop n (rxbuf c)\<rparr>) (take n (rxbuf c)) n n"
    using False ne assms
    by (subst readExactly_loop.simps) (simp add: connected_def client_read_def min_absorb2)
  show ?thesis unfolding readExactly_def first
    by (subst readExactly_loop.simps) simp
qed

lemma process_client_pixel_header:
  assumes "sock (client s)"
      and "rxbuf (client s) = MAGIC @ [PROTO_VERSION, f0, f1, f2, f3, c0, c1] @ body"
  shows "process_client s =
           pixel_frame (le32 f0 f1 f2 f3) (le16 c0 c1) (s\<lparr>client := (client s)\<lparr>rxbuf := body\<rparr>\<rparr>)"
proof -
  let ?c1 = "(client s)\<lparr>rxbuf := PROTO_VERSION # f0 # f1 # f2 # f3 # c0 # c1 # body\<rparr>"
  have r4: "readExactly (client s) 4 = Some (True, MAGIC, ?c1)"
    using readExactly_buffered [OF assms(1), of 4] assms(2) by (simp add: MAGIC_def)
  have r7: "readExactly ?c1 7 = Some (True, [PROTO_VERSION, f0, f1, f2, f3, c0, c1], (client s)\<lparr>rxbuf := body\<rparr>)"
    using readExactly_buffered [of ?c1 7] assms(1) by simp
  have pk: "pixel_packet (s\<lparr>client := ?c1\<rparr>) =
           pixel_frame (le32 f0 f1 f2 f3) (le16 c0 c1) (s\<lparr>client := (client s)\<lparr>rxbuf := body\<rparr>\<rparr>)"
    by (simp add: pixel_packet_def HEADER_SIZE_def r7)
  show ?thesis
    using assms by (simp add: process_client_def client_bool_def connected_def available_def r4 pk)
      (simp add: MAGIC_def MAGIC_RUN_def)
qed

lemma process_client_run_header:
  assumes "sock (client s)"
      and "rxbuf (client s) = MAGIC_RUN @ [RUN_VERSION, f0, f1, f2, f3, c0, c1] @ body"
  shows "process_client s =
           run_frame (le32 f0 f1 f2 f3) (le16 c0 c1) (s\<lparr>client := (client s)\<lparr>rxbuf := body\<rparr>\<rparr>)"
proof -
  let ?c1 = "(client s)\<lparr>rxbuf := RUN_VERSION # f0 # f1 # f2 # f3 # c0 # c1 # body\<rparr>"
  have r4: "readExactly (client s) 4 = Some (True, MAGIC_RUN, ?c1)"
    using readExactly_buffered [OF assms(1), of 4] assms(2) by (simp add: MAGIC_RUN_def)
  have r7: "readExactly ?c1 7 = Some (True, [RUN_VERSION, f0, f1, f2, f3, c0, c1], (client s)\<lparr>rxbuf := body\<rparr>)"
    using readExactly_buffered [of ?c1 7] assms(1) by simp
  have pk: "run_packet (s\<lparr>client := ?c1\<rparr>) =
           run_frame (le32 f0 f1 f2 f3) (le16 c0 c1) (s\<lparr>client := (client s)\<lparr>rxbuf := body\<rparr>\<rparr>)"
    by (simp add: run_packet_def RUN_HEADER_SIZE_def r7)
  show ?thesis
    using assms by (simp add: process_client_def client_bool_def connected_def available_def r4 pk)
      (simp add: MAGIC_def MAGIC_RUN_def)
qed

lemma accept_client_connected: "connected (client s) \<Longrightarrow> accept_client s = s"
  by (simp add: accept_client_def client_bool_def connected_def)

lemma readExactly_closed: "\<not> connected c \<Longrightarrow> readExactly c n = Some (n = 0, [], c)"
  unfolding readExactly_def by (subst readExactly_loop.simps) auto

subsection \<open>A frame whose header is buffered\<close>

lemma MAGIC_neq: "MAGIC \<noteq> MAGIC_RUN"
  by (simp add: MAGIC_def MAGIC_RUN_def)

lemma handleClient_header:
  assumes "connected (client s)"
      and "rxbuf (client s) = magic @ [ver, f0, f1, f2, f3, c0, c1] @ body"
      and "valid_kind magic ver"
  shows "handleClient s =
     (if magic = MAGIC
      then pixel_frame (le32 f0 f1 f2 f3) (le16 c0 c1) (s\<lparr>client := (client s)\<lparr>rxbuf := body\<rparr>\<rparr>)
      else run_frame (le32 f0 f1 f2 f3) (le16 c0 c1) (s\<lparr>client := (client s)\<lparr>rxbuf := body\<rparr>\<rparr>))"
proof -
  have sk: "sock (client s)" using assms(1) by (simp add: connected_def)
  have hc: "handleClient s = process_client s"
    using assms(1) by (simp add: handleClient_def accept_client_connected)
  show ?thesis
  proof (cases "magic = MAGIC")
    case True
    then have "ver = PROTO_VERSION" using assms(3) MAGIC_neq by (auto simp: valid_kind_def)
    then show ?thesis using True hc process_client_pixel_header [OF sk, of f0 f1 f2 f3 c0 c1 body] assms(2)
      by simp
  next
    case False
    then have "magic = MAGIC_RUN" "ver = RUN_VERSION" using assms(3) by (auto simp: valid_kind_def)
    then show ?thesis using False hc process_client_run_header [OF sk, of f0 f1 f2 f3 c0 c1 body] assms(2)
      by simp
  qed
qed

text \<open>
  Claim C9. On a connected client whose buffered bytes begin with a valid header (either
  kind) whose count field decodes to 0, \<open>handleClient\<close> returns \<open>True\<close> and the state
  changes in three places only: the eleven header bytes are consumed, \<open>frameCount\<close> is
  one more and \<open>lastFrameId\<close> is the frame id of the header. So the display and its calls,
  the heap, the buffer pointer and capacity, and the serial console are as before, and the
  client still holds its socket: \<open>client.stop()\<close> is not called.
\<close>

theorem empty_frame_counted_without_side_effects:
  assumes "connected (client s)"
      and "rxbuf (client s) = magic @ [ver, f0, f1, f2, f3, c0, c1] @ body"
      and "valid_kind magic ver"
      and "le16 c0 c1 = 0"
  shows "handleClient s =
           Some (True, s\<lparr>client := (client s)\<lparr>rxbuf := body\<rparr>,
                         frameCount := frameCount s + 1,
                         lastFrameId := le32 f0 f1 f2 f3\<rparr>)"
  using handleClient_header [OF assms(1,2,3)] assms(4)
  by (simp add: pixel_frame_def run_frame_def)

theorem empty_frame_counted_without_side_effects_witness:
  "connected (client (with_client lilka_display (sent_then_closed (MAGIC @ [PROTO_VERSION, 7, 0, 0, 0, 0, 0] @ [1, 2]))))
   \<and> valid_kind MAGIC PROTO_VERSION \<and> le16 0 0 = 0
   \<and> handleClient (with_client lilka_display (sent_then_closed (MAGIC @ [PROTO_VERSION, 7, 0, 0, 0, 0, 0] @ [1, 2])))
      = Some (True, (with_client lilka_display (sent_then_closed [1, 2]))\<lparr>frameCount := 1, lastFrameId := 7\<rparr>)
   \<and> valid_kind MAGIC_RUN RUN_VERSION
   \<and> handleClient (with_client lilka_display (sent_then_closed (MAGIC_RUN @ [RUN_VERSION, 0, 1, 0, 0, 0, 0] @ [])))
      = Some (True, (with_client lilka_display (sent_then_closed []))\<lparr>frameCount := 1, lastFrameId := 256\<rparr>)"
  using empty_frame_counted_without_side_effects
          [of "with_client lilka_display (sent_then_closed (MAGIC @ [PROTO_VERSION, 7, 0, 0, 0, 0, 0] @ [1, 2]))"
              MAGIC PROTO_VERSION 7 0 0 0 0 0 "[1, 2]"]
        empty_frame_counted_without_side_effects
          [of "with_client lilka_display (sent_then_closed (MAGIC_RUN @ [RUN_VERSION, 0, 1, 0, 0, 0, 0] @ []))"
              MAGIC_RUN RUN_VERSION 0 1 0 0 0 0 "[]"]
  by (simp add: with_client_def sent_then_closed_def boot_def connected_def valid_kind_def le16_def le32_def
        MAGIC_def MAGIC_RUN_def)

text \<open>
  Claim C4. On a connected client whose buffered bytes begin with a valid header (either
  kind) whose count exceeds \<open>width * height\<close> of the display, \<open>handleClient\<close> returns
  \<open>False\<close>; the client is stopped, the message of lines 226-227 (or 297-298) is printed,
  and nothing else changes: no call on the display, and \<open>frameCount\<close>, \<open>lastFrameId\<close>,
  \<open>updatesApplied\<close>, the buffer and the heap are as before.
\<close>

theorem oversized_count_rejected:
  assumes "connected (client s)"
      and "rxbuf (client s) = magic @ [ver, f0, f1, f2, f3, c0, c1] @ body"
      and "valid_kind magic ver"
      and "width (display s) * height (display s) < unat (le16 c0 c1)"
  shows "handleClient s =
           Some (False, s\<lparr>client := client_stop ((client s)\<lparr>rxbuf := body\<rparr>),
                          serial := serial s @
                            [Print (if magic = MAGIC then ''Update count too large: ''
                                    else ''Run count too large: ''),
                             PrintlnNum (unat (le16 c0 c1))]\<rparr>)"
proof -
  have "le16 c0 c1 \<noteq> 0" using assms(4) by auto
  then show ?thesis
    using handleClient_header [OF assms(1,2,3)] assms(4)
    by (simp add: pixel_frame_def run_frame_def)
qed

theorem oversized_count_rejected_witness:
  "connected (client (with_client small_display (sent_then_closed (MAGIC @ [PROTO_VERSION, 7, 0, 0, 0, 0x11, 0x27] @ [1, 2]))))
   \<and> valid_kind MAGIC PROTO_VERSION
   \<and> width small_display * height small_display < unat (le16 0x11 0x27)
   \<and> handleClient (with_client small_display (sent_then_closed (MAGIC @ [PROTO_VERSION, 7, 0, 0, 0, 0x11, 0x27] @ [1, 2])))
      = Some (False, (with_client small_display (client_stop (sent_then_closed [])))
                       \<lparr>serial := [Print ''Update count too large: '', PrintlnNum 10001]\<rparr>)
   \<and> valid_kind MAGIC_RUN RUN_VERSION
   \<and> handleClient (with_client small_display (sent_then_closed (MAGIC_RUN @ [RUN_VERSION, 7, 0, 0, 0, 0x11, 0x27] @ [])))
      = Some (False, (with_client small_display (client_stop (sent_then_closed [])))
                       \<lparr>serial := [Print ''Run count too large: '', PrintlnNum 10001]\<rparr>)"
  using oversized_count_rejected
          [of "with_client small_display (sent_then_closed (MAGIC @ [PROTO_VERSION, 7, 0, 0, 0, 0x11, 0x27] @ [1, 2]))"
              MAGIC PROTO_VERSION 7 0 0 0 "0x11" "0x27" "[1, 2]"]
        oversized_count_rejected
          [of "with_client small_display (sent_then_closed (MAGIC_RUN @ [RUN_VERSION, 7, 0, 0, 0, 0x11, 0x27] @ []))"
              MAGIC_RUN RUN_VERSION 7 0 0 0 "0x11" "0x27" "[]"]
  by (simp add: with_client_def sent_then_closed_def boot_def connected_def valid_kind_def le16_def
        small_display_def client_stop_def MAGIC_def MAGIC_RUN_def)

lemma u16_bound: "unat (w :: u16) < 65536"
  using unsigned_less [of w, where ?'a = nat] by simp

text \<open>
  Claim C10, as amended. On a display with \<open>width * height \<ge> 65536\<close> the test of line 225
  (and 296) is false for every count, since a count is below 65536; so for a valid header
  with a count other than 0, \<open>handleClient\<close> is the code from line 232 (or 303) on, which
  begins with \<open>ensureUpdateBuffer\<close> and goes on to the decode loop.
\<close>

theorem count_bound_unreachable_on_large_surface:
  assumes "connected (client s)"
      and "rxbuf (client s) = magic @ [ver, f0, f1, f2, f3, c0, c1] @ body"
      and "valid_kind magic ver"
      and "65536 \<le> width (display s) * height (display s)"
      and "le16 c0 c1 \<noteq> 0"
  shows "\<not> width (display s) * height (display s) < unat (le16 c0 c1)
    \<and> handleClient s =
        (if magic = MAGIC
         then pixel_body (le32 f0 f1 f2 f3) (le16 c0 c1) (s\<lparr>client := (client s)\<lparr>rxbuf := body\<rparr>\<rparr>)
         else run_body (le32 f0 f1 f2 f3) (le16 c0 c1) (s\<lparr>client := (client s)\<lparr>rxbuf := body\<rparr>\<rparr>))"
proof -
  have nb: "\<not> width (display s) * height (display s) < unat (le16 c0 c1)"
    using u16_bound [of "le16 c0 c1"] assms(4) by simp
  then show ?thesis
    using handleClient_header [OF assms(1,2,3)] assms(5)
    by (simp add: pixel_frame_def run_frame_def)
qed

lemma le16_50000: "le16 0x50 0xC3 = 50000"
  by (simp add: le16_def)

text \<open>
  Claim C5, as amended. A pixel frame with count 50000 on a 280x240 display is not rejected
  by the test of line 225, since 50000 is not above 67200: \<open>handleClient\<close> goes on with
  \<open>ensureUpdateBuffer(50000)\<close> and the decode loop.
\<close>

theorem count_50000_not_rejected:
  assumes "connected (client s)"
      and "rxbuf (client s) = MAGIC @ [PROTO_VERSION, f0, f1, f2, f3, 0x50, 0xC3] @ body"
      and "width (display s) = 280" and "height (display s) = 240"
  shows "handleClient s =
           pixel_body (le32 f0 f1 f2 f3) 50000 (s\<lparr>client := (client s)\<lparr>rxbuf := body\<rparr>\<rparr>)"
proof -
  have vk: "valid_kind MAGIC PROTO_VERSION" by (simp add: valid_kind_def)
  show ?thesis
    using handleClient_header [OF assms(1,2) vk] assms(3,4)
    by (simp add: pixel_frame_def le16_50000)
qed

subsection \<open>The scenarios, evaluated\<close>

lemma scenario_A_body:
  "pixel_body 7 1 (with_client lilka_display (sent_then_closed [0, 0, 0, 0, 0xFF, 0xFF])) =
     Some (True, (with_client lilka_display (sent_then_closed []))
        \<lparr>display := lilka_display\<lparr>ops := [DrawPixel 0 0 0xFFFF]\<rparr>,
         heap_of := \<lparr>psram_free = 4194296, ram_free = 262144, blocks = [(1, PSRAM, 8)], brk = 9\<rparr>,
         frameCount := 1, updatesApplied := 1, lastFrameId := 7,
         updateBuffer := Some 1,
         bufferData := [\<lparr>upd_x = 0, upd_y = 0, upd_len = 0, upd_color = 0xFFFF\<rparr>],
         bufferCapacity := 1\<rparr>)"
proof -
  let ?c = "sent_then_closed [0, 0, 0, 0, 0xFF, 0xFF]"
  have rd: "readExactly ?c 6 = Some (True, [0, 0, 0, 0, 0xFF, 0xFF], sent_then_closed [])"
    using readExactly_buffered [of ?c 6] by (simp add: sent_then_closed_def)
  show ?thesis
    by (simp add: pixel_body_def with_client_def boot_def ensureUpdateBuffer_def roomy_heap_def
          sizeof_PixelUpdate_def ps_malloc_def pixel_decode.simps [of 0] pixel_decode.simps [of 1]
          pixel_apply.simps [of 0] pixel_apply.simps [of 1] rd le16_def fresh_entry_def
          lilka_display_def drawPixel_def report_stats_def Let_def)
qed

theorem count_bound_unreachable_on_large_surface_witness:
  "connected (client scenario_A) \<and> valid_kind MAGIC PROTO_VERSION
   \<and> 65536 \<le> width (display scenario_A) * height (display scenario_A)
   \<and> le16 1 0 \<noteq> 0
   \<and> handleClient scenario_A =
     Some (True, (with_client lilka_display (sent_then_closed []))
        \<lparr>display := lilka_display\<lparr>ops := [DrawPixel 0 0 0xFFFF]\<rparr>,
         heap_of := \<lparr>psram_free = 4194296, ram_free = 262144, blocks = [(1, PSRAM, 8)], brk = 9\<rparr>,
         frameCount := 1, updatesApplied := 1, lastFrameId := 7,
         updateBuffer := Some 1,
         bufferData := [\<lparr>upd_x = 0, upd_y = 0, upd_len = 0, upd_color = 0xFFFF\<rparr>],
         bufferCapacity := 1\<rparr>)"
  using count_bound_unreachable_on_large_surface
          [of scenario_A MAGIC PROTO_VERSION 7 0 0 0 1 0 "[0, 0, 0, 0, 0xFF, 0xFF]"]
        scenario_A_body
  by (simp add: scenario_A_def with_client_def sent_then_closed_def boot_def connected_def
        valid_kind_def le16_def le32_def lilka_display_def)

lemma scenario_E_body:
  "pixel_body 9 50000 (with_client lilka_display (sent_then_closed [])) =
     Some (False, (with_client lilka_display (client_stop (sent_then_closed [])))
        \<lparr>serial := [Println ''Stream ended mid-frame; dropping client''],
         heap_of := \<lparr>psram_free = 3794304, ram_free = 262144, blocks = [(1, PSRAM, 400000)], brk = 400001\<rparr>,
         updateBuffer := Some 1,
         bufferData := replicate 50000 fresh_entry,
         bufferCapacity := 50000\<rparr>)"
proof -
  have rd: "readExactly (sent_then_closed []) 6 = Some (False, [], sent_then_closed [])"
    using readExactly_closed [of "sent_then_closed []" 6] by (simp add: sent_then_closed_def connected_def)
  have en: "ensureUpdateBuffer 50000 (with_client lilka_display (sent_then_closed [])) =
      (True, (with_client lilka_display (sent_then_closed []))
        \<lparr>heap_of := \<lparr>psram_free = 3794304, ram_free = 262144, blocks = [(1, PSRAM, 400000)], brk = 400001\<rparr>,
         updateBuffer := Some 1,
         bufferData := replicate 50000 fresh_entry,
         bufferCapacity := 50000\<rparr>)"
    by (simp add: with_client_def boot_def ensureUpdateBuffer_def roomy_heap_def
          sizeof_PixelUpdate_def ps_malloc_def)
  show ?thesis
    unfolding pixel_body_def
    by (simp add: en) (simp add: pixel_decode.simps [of 0] with_client_def rd boot_def)
qed

theorem count_50000_not_rejected_witness:
  "connected (client scenario_E)
   \<and> width (display scenario_E) = 280 \<and> height (display scenario_E) = 240
   \<and> handleClient scenario_E =
     Some (False, (with_client lilka_display (client_stop (sent_then_closed [])))
        \<lparr>serial := [Println ''Stream ended mid-frame; dropping client''],
         heap_of := \<lparr>psram_free = 3794304, ram_free = 262144, blocks = [(1, PSRAM, 400000)], brk = 400001\<rparr>,
         updateBuffer := Some 1,
         bufferData := replicate 50000 fresh_entry,
         bufferCapacity := 50000\<rparr>)"
  using count_50000_not_rejected [of scenario_E 9 0 0 0 "[]"] scenario_E_body
  by (simp add: scenario_E_def with_client_def sent_then_closed_def boot_def connected_def
        le32_def lilka_display_def)

lemma scenario_E_result:
  "handleClient scenario_E =
     Some (False, (with_client lilka_display (client_stop (sent_then_closed [])))
        \<lparr>serial := [Println ''Stream ended mid-frame; dropping client''],
         heap_of := \<lparr>psram_free = 3794304, ram_free = 262144, blocks = [(1, PSRAM, 400000)], brk = 400001\<rparr>,
         updateBuffer := Some 1,
         bufferData := replicate 50000 fresh_entry,
         bufferCapacity := 50000\<rparr>)"
  using handleClient_header [of scenario_E MAGIC PROTO_VERSION 9 0 0 0 "0x50" "0xC3" "[]"] scenario_E_body
  by (simp add: scenario_E_def with_client_def sent_then_closed_def boot_def connected_def
        le32_def lilka_display_def pixel_frame_def le16_50000 valid_kind_def)

text \<open>
  Claim C5 as stated fails on Scenario E: the result is not the rejection of lines 226-229.
  The buffer has been allocated with capacity 50000 and the call has ended in the decode
  loop, at the first entry, because the peer closed.
\<close>

theorem scenario_E_counterexample:
  "handleClient scenario_E \<noteq>
     Some (False, scenario_E\<lparr>client := client_stop ((client scenario_E)\<lparr>rxbuf := []\<rparr>),
                             serial := [Print ''Update count too large: '', PrintlnNum 50000]\<rparr>)
   \<and> serial (snd (the (handleClient scenario_E))) = [Println ''Stream ended mid-frame; dropping client'']
   \<and> bufferCapacity (snd (the (handleClient scenario_E))) = 50000
   \<and> updateBuffer (snd (the (handleClient scenario_E))) = Some 1"
  by (simp add: scenario_E_result)
     (simp add: scenario_E_def with_client_def boot_def)

lemma empty_frame_result:
  "handleClient empty_frame_state =
     Some (True, (with_client lilka_display (sent_then_closed []))\<lparr>frameCount := 1, lastFrameId := 7\<rparr>)"
proof -
  have vk: "valid_kind MAGIC PROTO_VERSION" by (simp add: valid_kind_def)
  have cn: "connected (client empty_frame_state)"
    by (simp add: empty_frame_state_def with_client_def sent_then_closed_def connected_def MAGIC_def)
  have rx: "rxbuf (client empty_frame_state) = MAGIC @ [PROTO_VERSION, 7, 0, 0, 0, 0, 0] @ []"
    by (simp add: empty_frame_state_def with_client_def sent_then_closed_def)
  show ?thesis
    using handleClient_header [OF cn rx vk]
    by (simp add: pixel_frame_def le16_def le32_def empty_frame_state_def with_client_def
          sent_then_closed_def boot_def)
qed

text \<open>
  Claim C10 as stated fails for a count of 0: such a frame is valid by magic and version,
  and on the 280x240 display it returns at line 223, before \<open>ensureUpdateBuffer\<close>: no
  buffer is held afterwards, the heap is untouched and nothing is printed.
\<close>

theorem empty_frame_skips_allocation_counterexample:
  "65536 \<le> width (display empty_frame_state) * height (display empty_frame_state)
   \<and> handleClient empty_frame_state \<noteq>
       pixel_body 7 0 (with_client lilka_display (sent_then_closed []))
   \<and> fst (the (handleClient empty_frame_state))
   \<and> updateBuffer (snd (the (handleClient empty_frame_state))) = None
   \<and> heap_of (snd (the (handleClient empty_frame_state))) = heap_of empty_frame_state
   \<and> serial (snd (the (handleClient empty_frame_state))) = []"
  by (simp add: empty_frame_result)
     (simp add: empty_frame_state_def with_client_def boot_def lilka_display_def pixel_body_def
        ensureUpdateBuffer_def sizeof_PixelUpdate_def ps_malloc_def malloc_def)

subsection \<open>Accepting a client\<close>

text \<open>
  Claim C6, as amended. When \<open>handleClient\<close> accepts a new client (no current client is
  connected and the server hands over a valid one), lines 174-175 set \<open>frameCount\<close> and
  \<open>updatesApplied\<close> to 0 before the rest of \<open>handleClient\<close> looks at the client's
  bytes; \<open>lastFrameId\<close> is not assigned and keeps the value it had.
\<close>

theorem accept_resets_two_counters:
  assumes "\<not> client_bool (client s) \<or> \<not> connected (client s)"
      and "server_available (server s) = (c, srv)"
      and "client_bool c"
  shows "accept_client s =
           s\<lparr>server := srv, client := c,
             display := fillScreen Black (display s),
             serial := serial s @ [Println ''Client connected''],
             frameCount := 0, updatesApplied := 0\<rparr>
    \<and> frameCount (accept_client s) = 0
    \<and> updatesApplied (accept_client s) = 0
    \<and> lastFrameId (accept_client s) = lastFrameId s
    \<and> handleClient s = process_client (accept_client s)"
  using assms by (auto simp: accept_client_def handleClient_def Let_def)

theorem accept_resets_two_counters_witness:
  "\<not> client_bool (client after_session)
   \<and> server_available (server after_session) = (quiet_peer, \<lparr>pending = []\<rparr>)
   \<and> client_bool quiet_peer
   \<and> frameCount (accept_client after_session) = 0
   \<and> updatesApplied (accept_client after_session) = 0
   \<and> lastFrameId (accept_client after_session) = 7"
  using accept_resets_two_counters [of after_session quiet_peer "\<lparr>pending = []\<rparr>"]
  by (simp add: after_session_def boot_def no_client_def client_bool_def quiet_peer_def server_available_def)

text \<open>
  Claim C6 as stated fails: after a connection whose last frame had id 7, accepting the next
  client leaves \<open>lastFrameId\<close> at 7.
\<close>

theorem lastFrameId_survives_accept_counterexample:
  "handleClient after_session \<noteq> None
   \<and> fst (the (handleClient after_session))
   \<and> client (snd (the (handleClient after_session))) = quiet_peer
   \<and> frameCount (snd (the (handleClient after_session))) = 0
   \<and> updatesApplied (snd (the (handleClient after_session))) = 0
   \<and> lastFrameId (snd (the (handleClient after_session))) = 7"
  by (simp add: handleClient_def accept_client_def process_client_def after_session_def boot_def
        no_client_def client_bool_def quiet_peer_def server_available_def connected_def available_def
        Let_def)

subsection \<open>Every way out of handleClient\<close>

lemma pixel_decode_effect:
  "pixel_decode i count s = Some (ok, s') \<Longrightarrow>
     display s' = display s \<and> frameCount s' = frameCount s \<and> lastFrameId s' = lastFrameId s
     \<and> updatesApplied s' = updatesApplied s \<and> millis s' = millis s \<and> lastStats s' = lastStats s
     \<and> length (bufferData s') = length (bufferData s) \<and> bufferCapacity s' = bufferCapacity s
     \<and> updateBuffer s' = updateBuffer s \<and> heap_of s' = heap_of s
     \<and> (if ok then serial s' = serial s
          else \<not> sock (client s')
               \<and> serial s' = serial s @ [Println ''Stream ended mid-frame; dropping client''])"
proof (induction "unat count - unat i" arbitrary: i s)
  case 0
  then have "\<not> i < count" by (simp add: word_less_nat_alt)
  then show ?case using "0.prems" by (subst (asm) pixel_decode.simps) auto
next
  case (Suc n)
  have True: "i < count" using Suc.hyps(2) by (simp add: word_less_nat_alt)
  have n: "n = unat count - unat (i + 1)" using Suc.hyps(2) word_succ [OF True] by simp
  show ?case
  proof (cases "readExactly (client s) 6")
    case None
    then show ?thesis using True Suc.prems by (subst (asm) pixel_decode.simps) simp
  next
    case (Some res)
    obtain rd entry c where res: "res = (rd, entry, c)" by (cases res) auto
    show ?thesis
    proof (cases rd)
      case False
      then show ?thesis using True Some res Suc.prems
        by (subst (asm) pixel_decode.simps) (auto simp: client_stop_def)
    next
      case rdT: True
      let ?s1 = "s\<lparr>client := c,
                  bufferData := (bufferData s)[unat i :=
                    (bufferData s ! unat i)
                      \<lparr>upd_x := le16 (entry ! 0) (entry ! 1),
                       upd_y := le16 (entry ! 2) (entry ! 3),
                       upd_color := le16 (entry ! 4) (entry ! 5)\<rparr>]\<rparr>"
      have nxt: "pixel_decode (i + 1) count ?s1 = Some (ok, s')"
        using True Some res rdT Suc.prems by (subst (asm) pixel_decode.simps) simp
      from Suc.hyps(1) [OF n nxt] show ?thesis by simp
    qed
  qed
qed

lemma run_decode_effect:
  "run_decode i count s = Some (ok, s') \<Longrightarrow>
     display s' = display s \<and> frameCount s' = frameCount s \<and> lastFrameId s' = lastFrameId s
     \<and> updatesApplied s' = updatesApplied s \<and> millis s' = millis s \<and> lastStats s' = lastStats s
     \<and> length (bufferData s') = length (bufferData s) \<and> bufferCapacity s' = bufferCapacity s
     \<and> updateBuffer s' = updateBuffer s \<and> heap_of s' = heap_of s
     \<and> (if ok then serial s' = serial s
          else \<not> sock (client s')
               \<and> serial s' = serial s @ [Println ''Stream ended mid-run frame; dropping client''])"
proof (induction "unat count - unat i" arbitrary: i s)
  case 0
  then have "\<not> i < count" by (simp add: word_less_nat_alt)
  then show ?case using "0.prems" by (subst (asm) run_decode.simps) auto
next
  case (Suc n)
  have True: "i < count" using Suc.hyps(2) by (simp add: word_less_nat_alt)
  have n: "n = unat count - unat (i + 1)" using Suc.hyps(2) word_succ [OF True] by simp
  show ?case
  proof (cases "readExactly (client s) 8")
    case None
    then show ?thesis using True Suc.prems by (subst (asm) run_decode.simps) simp
  next
    case (Some res)
    obtain rd entry c where res: "res = (rd, entry, c)" by (cases res) auto
    show ?thesis
    proof (cases rd)
      case False
      then show ?thesis using True Some res Suc.prems
        by (subst (asm) run_decode.simps) (auto simp: client_stop_def)
    next
      case rdT: True
      let ?s1 = "s\<lparr>client := c,
                  bufferData := (bufferData s)[unat i :=
                    (bufferData s ! unat i)
                      \<lparr>upd_y := le16 (entry ! 0) (entry ! 1),
                       upd_x := le16 (entry ! 2) (entry ! 3),
                       upd_len := le16 (entry ! 4) (entry ! 5),
                       upd_color := le16 (entry ! 6) (entry ! 7)\<rparr>]\<rparr>"
      have nxt: "run_decode (i + 1) count ?s1 = Some (ok, s')"
        using True Some res rdT Suc.prems by (subst (asm) run_decode.simps) simp
      from Suc.hyps(1) [OF n nxt] show ?thesis by simp
    qed
  qed
qed


lemma pixel_apply_serial: "serial (pixel_apply i count s) = serial s"
proof (induction "unat count - unat i" arbitrary: i s)
  case 0
  then have "\<not> i < count" by (simp add: word_less_nat_alt)
  then show ?case by (subst pixel_apply.simps) simp
next
  case (Suc n)
  have True: "i < count" using Suc.hyps(2) by (simp add: word_less_nat_alt)
  have n: "n = unat count - unat (i + 1)" using Suc.hyps(2) word_succ [OF True] by simp
  show ?case using True Suc.hyps(1) [OF n]
    by (subst pixel_apply.simps) (simp add: Let_def)
qed

lemma run_apply_serial: "serial (run_apply i count s) = serial s"
proof (induction "unat count - unat i" arbitrary: i s)
  case 0
  then have "\<not> i < count" by (simp add: word_less_nat_alt)
  then show ?case by (subst run_apply.simps) simp
next
  case (Suc n)
  have True: "i < count" using Suc.hyps(2) by (simp add: word_less_nat_alt)
  have n: "n = unat count - unat (i + 1)" using Suc.hyps(2) word_succ [OF True] by simp
  show ?case using True Suc.hyps(1) [OF n]
    by (subst run_apply.simps) (simp add: Let_def)
qed

lemma report_stats_serial:
  "length (serial (report_stats s)) = length (serial s)
   \<or> length (serial (report_stats s)) = length (serial s) + 6"
  by (simp add: report_stats_def Let_def)

lemma ensure_effect:
  "ensureUpdateBuffer n s = (ok, s') \<Longrightarrow>
     display s' = display s \<and> client s' = client s \<and> frameCount s' = frameCount s
     \<and> lastFrameId s' = lastFrameId s \<and> updatesApplied s' = updatesApplied s
     \<and> (ok \<longrightarrow> serial s' = serial s)"
  by (auto simp: ensureUpdateBuffer_def Let_def split: if_splits prod.splits)

lemma pixel_body_outcome:
  assumes "pixel_body fid count s = Some (r, s')"
  shows "(r \<longrightarrow> length (serial s') \<noteq> Suc (length (serial s)))
       \<and> (\<not> r \<longrightarrow> dropped_untouched s s')"
proof (cases "ensureUpdateBuffer (ucast count) s")
  case (Pair ok s2)
  note ee = ensure_effect [OF Pair]
  show ?thesis
  proof (cases ok)
    case False
    then show ?thesis using assms Pair ee
      by (auto simp: pixel_body_def dropped_untouched_def client_stop_def)
  next
    case okT: True
    show ?thesis
    proof (cases "pixel_decode 0 count s2")
      case None
      then show ?thesis using assms Pair okT by (simp add: pixel_body_def)
    next
      case (Some res)
      obtain d s3 where res: "res = (d, s3)" by (cases res) auto
      note de = pixel_decode_effect [OF Some [unfolded res]]
      show ?thesis
      proof (cases d)
        case False
        then have "r = False" "s' = s3" using assms Pair okT Some res by (auto simp: pixel_body_def)
        then show ?thesis using de ee False by (simp add: dropped_untouched_def)
      next
        case dT: True
        let ?s4 = "pixel_apply 0 count s3"
        let ?s5 = "?s4\<lparr>frameCount := frameCount ?s4 + 1, lastFrameId := fid\<rparr>"
        have rs: "r = True" "s' = report_stats ?s5"
          using assms Pair okT Some res dT by (auto simp: pixel_body_def Let_def)
        have "serial ?s5 = serial s" using de dT ee okT by (simp add: pixel_apply_serial)
        then show ?thesis using rs report_stats_serial [of ?s5] by auto
      qed
    qed
  qed
qed

lemma run_body_outcome:
  assumes "run_body fid count s = Some (r, s')"
  shows "(r \<longrightarrow> length (serial s') \<noteq> Suc (length (serial s)))
       \<and> (\<not> r \<longrightarrow> dropped_untouched s s')"
proof (cases "ensureUpdateBuffer (ucast count) s")
  case (Pair ok s2)
  note ee = ensure_effect [OF Pair]
  show ?thesis
  proof (cases ok)
    case False
    then show ?thesis using assms Pair ee
      by (auto simp: run_body_def dropped_untouched_def client_stop_def)
  next
    case okT: True
    show ?thesis
    proof (cases "run_decode 0 count s2")
      case None
      then show ?thesis using assms Pair okT by (simp add: run_body_def)
    next
      case (Some res)
      obtain d s3 where res: "res = (d, s3)" by (cases res) auto
      note de = run_decode_effect [OF Some [unfolded res]]
      show ?thesis
      proof (cases d)
        case False
        then have "r = False" "s' = s3" using assms Pair okT Some res by (auto simp: run_body_def)
        then show ?thesis using de ee False by (simp add: dropped_untouched_def)
      next
        case dT: True
        let ?s4 = "run_apply 0 count s3"
        let ?s5 = "?s4\<lparr>frameCount := frameCount ?s4 + 1, lastFrameId := fid\<rparr>"
        have rs: "r = True" "s' = report_stats ?s5"
          using assms Pair okT Some res dT by (auto simp: run_body_def Let_def)
        have "serial ?s5 = serial s" using de dT ee okT by (simp add: run_apply_serial)
        then show ?thesis using rs report_stats_serial [of ?s5] by auto
      qed
    qed
  qed
qed

lemma pixel_frame_outcome:
  assumes "pixel_frame fid count s = Some (r, s')"
  shows "(r \<longrightarrow> length (serial s') \<noteq> Suc (length (serial s)))
       \<and> (\<not> r \<longrightarrow> dropped_untouched s s')"
  using assms pixel_body_outcome [of fid count s r s']
  by (auto simp: pixel_frame_def dropped_untouched_def client_stop_def split: if_splits)

lemma run_frame_outcome:
  assumes "run_frame fid count s = Some (r, s')"
  shows "(r \<longrightarrow> length (serial s') \<noteq> Suc (length (serial s)))
       \<and> (\<not> r \<longrightarrow> dropped_untouched s s')"
  using assms run_body_outcome [of fid count s r s']
  by (auto simp: run_frame_def dropped_untouched_def client_stop_def split: if_splits)

lemma dropped_untouched_client [simp]:
  "dropped_untouched (s\<lparr>client := c\<rparr>) s' = dropped_untouched s s'"
  by (simp add: dropped_untouched_def)

lemma pixel_packet_outcome:
  assumes "pixel_packet s = Some (r, s')"
  shows "(r \<longrightarrow> length (serial s') \<noteq> Suc (length (serial s)))
       \<and> (\<not> r \<longrightarrow> dropped_untouched s s')"
proof (cases "readExactly (client s) (HEADER_SIZE - 4)")
  case None
  then show ?thesis using assms by (simp add: pixel_packet_def)
next
  case (Some res)
  obtain ok rest c where res: "res = (ok, rest, c)" by (cases res) auto
  show ?thesis
  proof (cases "ok \<and> rest ! 0 = PROTO_VERSION")
    case False
    then show ?thesis using assms Some res
      by (auto simp: pixel_packet_def dropped_untouched_def client_stop_def split: if_splits)
  next
    case True
    then have "pixel_frame (le32 (rest ! 1) (rest ! 2) (rest ! 3) (rest ! 4)) (le16 (rest ! 5) (rest ! 6))
                 (s\<lparr>client := c\<rparr>) = Some (r, s')"
      using assms Some res by (simp add: pixel_packet_def Let_def)
    from pixel_frame_outcome [OF this] show ?thesis by simp
  qed
qed

lemma run_packet_outcome:
  assumes "run_packet s = Some (r, s')"
  shows "(r \<longrightarrow> length (serial s') \<noteq> Suc (length (serial s)))
       \<and> (\<not> r \<longrightarrow> dropped_untouched s s')"
proof (cases "readExactly (client s) (RUN_HEADER_SIZE - 4)")
  case None
  then show ?thesis using assms by (simp add: run_packet_def)
next
  case (Some res)
  obtain ok rest c where res: "res = (ok, rest, c)" by (cases res) auto
  show ?thesis
  proof (cases "ok \<and> rest ! 0 = RUN_VERSION")
    case False
    then show ?thesis using assms Some res
      by (auto simp: run_packet_def dropped_untouched_def client_stop_def split: if_splits)
  next
    case True
    then have "run_frame (le32 (rest ! 1) (rest ! 2) (rest ! 3) (rest ! 4)) (le16 (rest ! 5) (rest ! 6))
                 (s\<lparr>client := c\<rparr>) = Some (r, s')"
      using assms Some res by (simp add: run_packet_def Let_def)
    from run_frame_outcome [OF this] show ?thesis by simp
  qed
qed

lemma process_client_outcome:
  assumes "connected (client s)" "process_client s = Some (r, s')"
  shows "(r \<longrightarrow> length (serial s') \<noteq> Suc (length (serial s)))
       \<and> (\<not> r \<longrightarrow> dropped_untouched s s')"
proof (cases "available (client s) < 11")
  case True
  then show ?thesis using assms by (auto simp: process_client_def client_bool_def connected_def)
next
  case False
  have sk: "sock (client s)" using assms(1) by (simp add: connected_def)
  show ?thesis
  proof (cases "readExactly (client s) 4")
    case None
    then show ?thesis using assms False sk by (simp add: process_client_def client_bool_def)
  next
    case (Some res)
    obtain ok magicBuf c where res: "res = (ok, magicBuf, c)" by (cases res) auto
    show ?thesis
    proof (cases "ok \<and> (magicBuf = MAGIC_RUN \<or> magicBuf = MAGIC)")
      case nf: False
      then show ?thesis using assms False sk Some res
        by (auto simp: process_client_def client_bool_def dropped_untouched_def client_stop_def Let_def
              split: if_splits)
    next
      case True
      show ?thesis
      proof (cases "magicBuf = MAGIC")
        case px: True
        then have "pixel_packet (s\<lparr>client := c\<rparr>) = Some (r, s')"
          using assms False sk Some res True by (simp add: process_client_def client_bool_def Let_def)
        from pixel_packet_outcome [OF this] show ?thesis by simp
      next
        case rn: False
        then have "run_packet (s\<lparr>client := c\<rparr>) = Some (r, s')"
          using assms False sk Some res True by (simp add: process_client_def client_bool_def Let_def)
        from run_packet_outcome [OF this] show ?thesis by simp
      qed
    qed
  qed
qed

lemma readExactly_short:
  assumes "sock c" "wire c = []" "hangup c" "length (rxbuf c) < n"
  shows "readExactly c n = Some (False, rxbuf c, c\<lparr>rxbuf := []\<rparr>)"
proof (cases "rxbuf c = []")
  case True
  then have "\<not> connected c" using assms by (simp add: connected_def)
  then show ?thesis using readExactly_closed [of c n] True assms(4) by simp
next
  case False
  have first: "readExactly_loop c [] n 0 =
      readExactly_loop (c\<lparr>rxbuf := []\<rparr>) (rxbuf c) n (length (rxbuf c))"
    using False assms
    by (subst readExactly_loop.simps) (simp add: connected_def client_read_def)
  show ?thesis unfolding readExactly_def first using assms
    by (subst readExactly_loop.simps) (simp add: connected_def)
qed

lemma truncated_frame_body:
  "pixel_body 7 2 (with_client lilka_display (sent_then_closed [1, 0, 2, 0, 3, 0, 4, 0, 5])) =
     Some (False, truncated_result)"
proof -
  have rd1: "readExactly (sent_then_closed [1, 0, 2, 0, 3, 0, 4, 0, 5]) 6 =
               Some (True, [1, 0, 2, 0, 3, 0], sent_then_closed [4, 0, 5])"
    using readExactly_buffered [of "sent_then_closed [1, 0, 2, 0, 3, 0, 4, 0, 5]" 6]
    by (simp add: sent_then_closed_def)
  have rd2: "readExactly (sent_then_closed [4, 0, 5]) 6 = Some (False, [4, 0, 5], sent_then_closed [])"
    using readExactly_short [of "sent_then_closed [4, 0, 5]" 6] by (simp add: sent_then_closed_def)
  have two: "replicate 2 fresh_entry = [fresh_entry, fresh_entry]"
    by (simp add: numeral_2_eq_2)
  show ?thesis
    by (simp add: pixel_body_def with_client_def boot_def ensureUpdateBuffer_def roomy_heap_def
          sizeof_PixelUpdate_def ps_malloc_def pixel_decode.simps [of 0] pixel_decode.simps [of 1]
          rd1 [unfolded sent_then_closed_def] rd2 [unfolded sent_then_closed_def] two
          le16_def truncated_result_def client_stop_def sent_then_closed_def)
       (simp add: fresh_entry_def)
qed

lemma truncated_frame_result: "handleClient truncated_frame = Some (False, truncated_result)"
  using handleClient_header [of truncated_frame MAGIC PROTO_VERSION 7 0 0 0 2 0 "[1, 0, 2, 0, 3, 0, 4, 0, 5]"]
        truncated_frame_body
  by (simp add: truncated_frame_def with_client_def sent_then_closed_def boot_def connected_def
        le32_def le16_def lilka_display_def pixel_frame_def valid_kind_def)

subsection \<open>A stream that ends inside a frame\<close>

text \<open>
  With a peer that closes in the end, or that delivers enough, \<open>readExactly\<close> returns:
  the flag says whether the bytes were there, and the client has given up what was read.
\<close>

lemma readExactly_loop_total:
  assumes "sock c" "got \<le> len" "hangup c \<or> len - got \<le> length (incoming c)"
  shows "\<exists>c'. readExactly_loop c dst len got =
                 Some (len - got \<le> length (incoming c), dst @ take (len - got) (incoming c), c')
              \<and> sock c' \<and> hangup c' = hangup c \<and> incoming c' = drop (len - got) (incoming c)"
  using assms
proof (induction "2 * length (wire c) + (if rxbuf c = [] then 0 else 1)" arbitrary: c dst got
        rule: less_induct)
  case less
  show ?case
  proof (cases "got < len")
    case False
    then have "got = len" using less.prems(2) by simp
    then show ?thesis using less.prems(1)
      by (subst readExactly_loop.simps) simp
  next
    case lt: True
    show ?thesis
    proof (cases "rxbuf c = []")
      case rxne: False
      have cn: "connected c" using less.prems(1) rxne by (simp add: connected_def)
      let ?chunk = "take (len - got) (rxbuf c)"
      let ?c1 = "c\<lparr>rxbuf := drop (len - got) (rxbuf c)\<rparr>"
      have chne: "0 < length ?chunk" using rxne lt by simp
      have step: "readExactly_loop c dst len got =
                    readExactly_loop ?c1 (dst @ ?chunk) len (got + length ?chunk)"
        using lt cn chne less.prems(1)
        by (subst readExactly_loop.simps) (simp add: client_read_def)
      show ?thesis
      proof (cases "len - got \<le> length (rxbuf c)")
        case True
        then have g: "got + length ?chunk = len" using lt by simp
        have "readExactly_loop ?c1 (dst @ ?chunk) len (got + length ?chunk) = Some (True, dst @ ?chunk, ?c1)"
          unfolding g by (subst readExactly_loop.simps) simp
        then show ?thesis unfolding step using True less.prems(1)
          by (simp add: incoming_def)
      next
        case short: False
        then have ch: "?chunk = rxbuf c" and c1: "?c1 = c\<lparr>rxbuf := []\<rparr>" by simp_all
        have m: "2 * length (wire ?c1) + (if rxbuf ?c1 = [] then 0 else 1)
                 < 2 * length (wire c) + (if rxbuf c = [] then 0 else 1)"
          using rxne short by simp
        have p1: "sock ?c1" using less.prems(1) by simp
        have p2: "got + length ?chunk \<le> len" using short by simp
        have p3: "hangup ?c1 \<or> len - (got + length ?chunk) \<le> length (incoming ?c1)"
          using less.prems(3) short by (auto simp: incoming_def)
        from less.hyps [OF m p1 p2 p3, of "dst @ ?chunk"]
        obtain c' where r: "readExactly_loop ?c1 (dst @ ?chunk) len (got + length ?chunk) =
                 Some (len - (got + length ?chunk) \<le> length (incoming ?c1),
                       (dst @ ?chunk) @ take (len - (got + length ?chunk)) (incoming ?c1), c')"
          and c': "sock c'" "hangup c' = hangup ?c1"
                  "incoming c' = drop (len - (got + length ?chunk)) (incoming ?c1)"
          by blast
        have i1: "incoming ?c1 = concat (wire c)" using short by (simp add: incoming_def)
        have a: "(len - (got + length ?chunk) \<le> length (incoming ?c1)) = (len - got \<le> length (incoming c))"
          using short by (auto simp: incoming_def)
        have b: "(dst @ ?chunk) @ take (len - (got + length ?chunk)) (incoming ?c1)
                 = dst @ take (len - got) (incoming c)"
          using short by (simp add: incoming_def)
        have d: "drop (len - (got + length ?chunk)) (incoming ?c1) = drop (len - got) (incoming c)"
          using short by (simp add: incoming_def)
        show ?thesis unfolding step r a b using c' d by simp
      qed
    next
      case rxe: True
      show ?thesis
      proof (cases "wire c")
        case Nil
        then have inc: "incoming c = []" using rxe by (simp add: incoming_def)
        then have hu: "hangup c" using less.prems(3) lt by simp
        have ncn: "\<not> connected c" using rxe Nil hu by (simp add: connected_def)
        show ?thesis using lt ncn inc less.prems(1)
          by (subst readExactly_loop.simps) simp
      next
        case (Cons ch rest)
        have cn: "connected c" using less.prems(1) Cons by (simp add: connected_def)
        let ?c2 = "c\<lparr>rxbuf := ch, wire := rest\<rparr>"
        have step: "readExactly_loop c dst len got = readExactly_loop ?c2 dst len got"
          using lt cn rxe Cons less.prems(1)
          by (subst readExactly_loop.simps) (simp add: client_read_def delay1_def)
        have m: "2 * length (wire ?c2) + (if rxbuf ?c2 = [] then 0 else 1)
                 < 2 * length (wire c) + (if rxbuf c = [] then 0 else 1)"
          using Cons by simp
        have inc: "incoming ?c2 = incoming c" using rxe Cons by (simp add: incoming_def)
        have p1: "sock ?c2" using less.prems(1) by simp
        have p3: "hangup ?c2 \<or> len - got \<le> length (incoming ?c2)"
          using less.prems(3) inc by simp
        from less.hyps [OF m p1 less.prems(2) p3, of dst]
        show ?thesis unfolding step inc by simp
      qed
    qed
  qed
qed

lemma readExactly_total:
  assumes "sock c" "hangup c \<or> n \<le> length (incoming c)"
  shows "\<exists>c'. readExactly c n = Some (n \<le> length (incoming c), take n (incoming c), c')
              \<and> sock c' \<and> hangup c' = hangup c \<and> incoming c' = drop n (incoming c)"
  using readExactly_loop_total [of c 0 n "[]"] assms by (simp add: readExactly_def)

lemma pixel_decode_truncated:
  assumes "sock (client s)" "hangup (client s)"
      and "length (incoming (client s)) < 6 * (unat count - unat i)"
  shows "\<exists>s'. pixel_decode i count s = Some (False, s')"
  using assms
proof (induction "unat count - unat i" arbitrary: i s)
  case 0
  then show ?case by simp
next
  case (Suc n)
  have lt: "i < count" using Suc.hyps(2) by (simp add: word_less_nat_alt)
  have n: "n = unat count - unat (i + 1)" using Suc.hyps(2) word_succ [OF lt] by simp
  from readExactly_total [of "client s" 6] Suc.prems(1,2)
  obtain c' where rd: "readExactly (client s) 6 =
        Some (6 \<le> length (incoming (client s)), take 6 (incoming (client s)), c')"
    and c': "sock c'" "hangup c' = hangup (client s)" "incoming c' = drop 6 (incoming (client s))"
    by blast
  show ?case
  proof (cases "6 \<le> length (incoming (client s))")
    case False
    then show ?thesis using lt rd by (subst pixel_decode.simps) simp
  next
    case True
    let ?entry = "take 6 (incoming (client s))"
    let ?s1 = "s\<lparr>client := c',
                bufferData := (bufferData s)[unat i :=
                  (bufferData s ! unat i)
                    \<lparr>upd_x := le16 (?entry ! 0) (?entry ! 1),
                     upd_y := le16 (?entry ! 2) (?entry ! 3),
                     upd_color := le16 (?entry ! 4) (?entry ! 5)\<rparr>]\<rparr>"
    have step: "pixel_decode i count s = pixel_decode (i + 1) count ?s1"
      using lt rd True by (subst pixel_decode.simps) simp
    have short: "length (incoming (client ?s1)) < 6 * (unat count - unat (i + 1))"
      using Suc.prems(3) c'(3) True n Suc.hyps(2) by simp
    from Suc.hyps(1) [OF n, of ?s1] c' Suc.prems(2) short
    show ?thesis unfolding step by simp
  qed
qed

lemma run_decode_truncated:
  assumes "sock (client s)" "hangup (client s)"
      and "length (incoming (client s)) < 8 * (unat count - unat i)"
  shows "\<exists>s'. run_decode i count s = Some (False, s')"
  using assms
proof (induction "unat count - unat i" arbitrary: i s)
  case 0
  then show ?case by simp
next
  case (Suc n)
  have lt: "i < count" using Suc.hyps(2) by (simp add: word_less_nat_alt)
  have n: "n = unat count - unat (i + 1)" using Suc.hyps(2) word_succ [OF lt] by simp
  from readExactly_total [of "client s" 8] Suc.prems(1,2)
  obtain c' where rd: "readExactly (client s) 8 =
        Some (8 \<le> length (incoming (client s)), take 8 (incoming (client s)), c')"
    and c': "sock c'" "hangup c' = hangup (client s)" "incoming c' = drop 8 (incoming (client s))"
    by blast
  show ?case
  proof (cases "8 \<le> length (incoming (client s))")
    case False
    then show ?thesis using lt rd by (subst run_decode.simps) simp
  next
    case True
    let ?entry = "take 8 (incoming (client s))"
    let ?s1 = "s\<lparr>client := c',
                bufferData := (bufferData s)[unat i :=
                  (bufferData s ! unat i)
                    \<lparr>upd_y := le16 (?entry ! 0) (?entry ! 1),
                     upd_x := le16 (?entry ! 2) (?entry ! 3),
                     upd_len := le16 (?entry ! 4) (?entry ! 5),
                     upd_color := le16 (?entry ! 6) (?entry ! 7)\<rparr>]\<rparr>"
    have step: "run_decode i count s = run_decode (i + 1) count ?s1"
      using lt rd True by (subst run_decode.simps) simp
    have short: "length (incoming (client ?s1)) < 8 * (unat count - unat (i + 1))"
      using Suc.prems(3) c'(3) True n Suc.hyps(2) by simp
    from Suc.hyps(1) [OF n, of ?s1] c' Suc.prems(2) short
    show ?thesis unfolding step by simp
  qed
qed

lemma pixel_decode_complete:
  assumes "sock (client s)"
      and "6 * (unat count - unat i) \<le> length (incoming (client s))"
  shows "\<exists>s'. pixel_decode i count s = Some (True, s')"
  using assms
proof (induction "unat count - unat i" arbitrary: i s)
  case 0
  then have "\<not> i < count" by (simp add: word_less_nat_alt)
  then show ?case by (subst pixel_decode.simps) simp
next
  case (Suc n)
  have lt: "i < count" using Suc.hyps(2) by (simp add: word_less_nat_alt)
  have n: "n = unat count - unat (i + 1)" using Suc.hyps(2) word_succ [OF lt] by simp
  have six: "6 \<le> length (incoming (client s))" using Suc.prems(2) Suc.hyps(2) by simp
  from readExactly_total [of "client s" 6] Suc.prems(1) six
  obtain c' where rd: "readExactly (client s) 6 = Some (True, take 6 (incoming (client s)), c')"
    and c': "sock c'" "incoming c' = drop 6 (incoming (client s))"
    by auto
  let ?entry = "take 6 (incoming (client s))"
  let ?s1 = "s\<lparr>client := c',
              bufferData := (bufferData s)[unat i :=
                (bufferData s ! unat i)
                  \<lparr>upd_x := le16 (?entry ! 0) (?entry ! 1),
                   upd_y := le16 (?entry ! 2) (?entry ! 3),
                   upd_color := le16 (?entry ! 4) (?entry ! 5)\<rparr>]\<rparr>"
  have step: "pixel_decode i count s = pixel_decode (i + 1) count ?s1"
    using lt rd by (subst pixel_decode.simps) simp
  have enough: "6 * (unat count - unat (i + 1)) \<le> length (incoming (client ?s1))"
    using Suc.prems(2) c'(2) n Suc.hyps(2) by simp
  from Suc.hyps(1) [OF n, of ?s1] c' enough
  show ?case unfolding step by simp
qed

lemma run_decode_complete:
  assumes "sock (client s)"
      and "8 * (unat count - unat i) \<le> length (incoming (client s))"
  shows "\<exists>s'. run_decode i count s = Some (True, s')"
  using assms
proof (induction "unat count - unat i" arbitrary: i s)
  case 0
  then have "\<not> i < count" by (simp add: word_less_nat_alt)
  then show ?case by (subst run_decode.simps) simp
next
  case (Suc n)
  have lt: "i < count" using Suc.hyps(2) by (simp add: word_less_nat_alt)
  have n: "n = unat count - unat (i + 1)" using Suc.hyps(2) word_succ [OF lt] by simp
  have six: "8 \<le> length (incoming (client s))" using Suc.prems(2) Suc.hyps(2) by simp
  from readExactly_total [of "client s" 8] Suc.prems(1) six
  obtain c' where rd: "readExactly (client s) 8 = Some (True, take 8 (incoming (client s)), c')"
    and c': "sock c'" "incoming c' = drop 8 (incoming (client s))"
    by auto
  let ?entry = "take 8 (incoming (client s))"
  let ?s1 = "s\<lparr>client := c',
              bufferData := (bufferData s)[unat i :=
                (bufferData s ! unat i)
                  \<lparr>upd_y := le16 (?entry ! 0) (?entry ! 1),
                   upd_x := le16 (?entry ! 2) (?entry ! 3),
                   upd_len := le16 (?entry ! 4) (?entry ! 5),
                   upd_color := le16 (?entry ! 6) (?entry ! 7)\<rparr>]\<rparr>"
  have step: "run_decode i count s = run_decode (i + 1) count ?s1"
    using lt rd by (subst run_decode.simps) simp
  have enough: "8 * (unat count - unat (i + 1)) \<le> length (incoming (client ?s1))"
    using Suc.prems(2) c'(2) n Suc.hyps(2) by simp
  from Suc.hyps(1) [OF n, of ?s1] c' enough
  show ?case unfolding step by simp
qed

lemma ensure_client:
  "fst (ensureUpdateBuffer n (s\<lparr>client := c\<rparr>)) = fst (ensureUpdateBuffer n s)"
  by (auto simp: ensureUpdateBuffer_def Let_def split: if_splits prod.splits)

lemma pixel_frame_truncated:
  assumes "sock (client s)" "hangup (client s)"
      and "length (incoming (client s)) < 6 * unat count"
  shows "\<exists>s'. pixel_frame fid count s = Some (False, s') \<and> dropped_untouched s s'
          \<and> (unat count \<le> width (display s) * height (display s)
               \<and> fst (ensureUpdateBuffer (ucast count) s)
              \<longrightarrow> serial s' = serial s @ [Println ''Stream ended mid-frame; dropping client''])"
proof -
  have nz: "count \<noteq> 0" using assms(3) by auto
  have ex: "\<exists>s'. pixel_frame fid count s = Some (False, s')
          \<and> (unat count \<le> width (display s) * height (display s)
               \<and> fst (ensureUpdateBuffer (ucast count) s)
              \<longrightarrow> serial s' = serial s @ [Println ''Stream ended mid-frame; dropping client''])"
  proof (cases "unat count > width (display s) * height (display s)")
    case True
    then show ?thesis using nz by (simp add: pixel_frame_def)
  next
    case fits: False
    show ?thesis
    proof (cases "ensureUpdateBuffer (ucast count) s")
      case (Pair ok s2)
      note ee = ensure_effect [OF Pair]
      show ?thesis
      proof (cases ok)
        case False
        then show ?thesis using nz fits Pair by (simp add: pixel_frame_def pixel_body_def)
      next
        case True
        have "\<exists>s3. pixel_decode 0 count s2 = Some (False, s3)"
          using pixel_decode_truncated [of s2 count 0] assms ee by simp
        then obtain s3 where d: "pixel_decode 0 count s2 = Some (False, s3)" by blast
        from pixel_decode_effect [OF d] ee True
        have "serial s3 = serial s @ [Println ''Stream ended mid-frame; dropping client'']" by simp
        then show ?thesis using nz fits Pair True d by (simp add: pixel_frame_def pixel_body_def)
      qed
    qed
  qed
  then obtain s' where r: "pixel_frame fid count s = Some (False, s')"
    and m: "unat count \<le> width (display s) * height (display s)
               \<and> fst (ensureUpdateBuffer (ucast count) s)
              \<longrightarrow> serial s' = serial s @ [Println ''Stream ended mid-frame; dropping client'']"
    by blast
  from pixel_frame_outcome [OF r] have "dropped_untouched s s'" by simp
  with r m show ?thesis by blast
qed

lemma run_frame_truncated:
  assumes "sock (client s)" "hangup (client s)"
      and "length (incoming (client s)) < 8 * unat count"
  shows "\<exists>s'. run_frame fid count s = Some (False, s') \<and> dropped_untouched s s'
          \<and> (unat count \<le> width (display s) * height (display s)
               \<and> fst (ensureUpdateBuffer (ucast count) s)
              \<longrightarrow> serial s' = serial s @ [Println ''Stream ended mid-run frame; dropping client''])"
proof -
  have nz: "count \<noteq> 0" using assms(3) by auto
  have ex: "\<exists>s'. run_frame fid count s = Some (False, s')
          \<and> (unat count \<le> width (display s) * height (display s)
               \<and> fst (ensureUpdateBuffer (ucast count) s)
              \<longrightarrow> serial s' = serial s @ [Println ''Stream ended mid-run frame; dropping client''])"
  proof (cases "unat count > width (display s) * height (display s)")
    case True
    then show ?thesis using nz by (simp add: run_frame_def)
  next
    case fits: False
    show ?thesis
    proof (cases "ensureUpdateBuffer (ucast count) s")
      case (Pair ok s2)
      note ee = ensure_effect [OF Pair]
      show ?thesis
      proof (cases ok)
        case False
        then show ?thesis using nz fits Pair by (simp add: run_frame_def run_body_def)
      next
        case True
        have "\<exists>s3. run_decode 0 count s2 = Some (False, s3)"
          using run_decode_truncated [of s2 count 0] assms ee by simp
        then obtain s3 where d: "run_decode 0 count s2 = Some (False, s3)" by blast
        from run_decode_effect [OF d] ee True
        have "serial s3 = serial s @ [Println ''Stream ended mid-run frame; dropping client'']" by simp
        then show ?thesis using nz fits Pair True d by (simp add: run_frame_def run_body_def)
      qed
    qed
  qed
  then obtain s' where r: "run_frame fid count s = Some (False, s')"
    and m: "unat count \<le> width (display s) * height (display s)
               \<and> fst (ensureUpdateBuffer (ucast count) s)
              \<longrightarrow> serial s' = serial s @ [Println ''Stream ended mid-run frame; dropping client'']"
    by blast
  from run_frame_outcome [OF r] have "dropped_untouched s s'" by simp
  with r m show ?thesis by blast
qed

lemma handleClient_waits_for_header:
  assumes "connected (client s)" "available (client s) < 11"
  shows "handleClient s = Some (True, s)"
  using assms by (simp add: handleClient_def accept_client_connected process_client_def
        client_bool_def connected_def)

lemma handleClient_truncated_body:
  assumes "connected (client s)"
      and "rxbuf (client s) = magic @ [ver, f0, f1, f2, f3, c0, c1] @ body"
      and "valid_kind magic ver"
      and "hangup (client s)"
      and "length (body @ concat (wire (client s))) < entry_size magic * unat (le16 c0 c1)"
  shows "\<exists>s'. handleClient s = Some (False, s') \<and> dropped_untouched s s'
          \<and> (unat (le16 c0 c1) \<le> width (display s) * height (display s)
               \<and> fst (ensureUpdateBuffer (ucast (le16 c0 c1)) s)
              \<longrightarrow> serial s' = serial s @ [Println (truncation_message magic)])"
proof -
  let ?s1 = "s\<lparr>client := (client s)\<lparr>rxbuf := body\<rparr>\<rparr>"
  have sk: "sock (client ?s1)" "hangup (client ?s1)"
    using assms(1,4) by (simp_all add: connected_def)
  have inc: "incoming (client ?s1) = body @ concat (wire (client s))"
    by (simp add: incoming_def)
  note hd = handleClient_header [OF assms(1,2,3), of]
  show ?thesis
  proof (cases "magic = MAGIC")
    case True
    then have "length (incoming (client ?s1)) < 6 * unat (le16 c0 c1)"
      using assms(5) inc by (simp add: entry_size_def)
    from pixel_frame_truncated [OF sk this, of "le32 f0 f1 f2 f3"]
    show ?thesis using hd True by (simp add: truncation_message_def ensure_client)
  next
    case False
    then have "length (incoming (client ?s1)) < 8 * unat (le16 c0 c1)"
      using assms(5) inc by (simp add: entry_size_def)
    from run_frame_truncated [OF sk this, of "le32 f0 f1 f2 f3"]
    show ?thesis using hd False by (simp add: truncation_message_def ensure_client)
  qed
qed

text \<open>
  Claim C3, as amended. On a connected client whose buffered bytes begin with a valid header
  (either kind), when the peer closes before it has delivered the whole body (the bytes
  buffered after the header and those still to arrive are fewer than \<open>count\<close> entries),
  \<open>handleClient\<close> returns, and returns \<open>False\<close>: the client is stopped, no call has been
  made on the display, and \<open>frameCount\<close>, \<open>lastFrameId\<close> and \<open>updatesApplied\<close> are as
  before. When the count passes the test of line 225 (or 296) and the buffer is there, the
  call ends in the decode loop with the message of line 241 (or 313); the apply loop, which
  comes after the decode loop, is not reached. A stream that stops inside the header is
  another matter: while fewer than 11 bytes are buffered, line 185 returns \<open>True\<close> and
  nothing changes, the client included.
\<close>

theorem truncated_body_tears_down_untouched:
  assumes "connected (client s)"
  shows "(rxbuf (client s) = magic @ [ver, f0, f1, f2, f3, c0, c1] @ body
          \<and> valid_kind magic ver \<and> hangup (client s)
          \<and> length (body @ concat (wire (client s))) < entry_size magic * unat (le16 c0 c1)
         \<longrightarrow> (\<exists>s'. handleClient s = Some (False, s')
                \<and> display s' = display s \<and> \<not> sock (client s')
                \<and> frameCount s' = frameCount s \<and> lastFrameId s' = lastFrameId s
                \<and> updatesApplied s' = updatesApplied s
                \<and> (unat (le16 c0 c1) \<le> width (display s) * height (display s)
                     \<and> fst (ensureUpdateBuffer (ucast (le16 c0 c1)) s)
                    \<longrightarrow> serial s' = serial s @ [Println (truncation_message magic)])))
       \<and> (available (client s) < 11 \<longrightarrow> handleClient s = Some (True, s))"
  using handleClient_truncated_body [OF assms, of magic ver f0 f1 f2 f3 c0 c1 body]
        handleClient_waits_for_header [OF assms]
  unfolding dropped_untouched_def by blast

theorem truncated_body_tears_down_untouched_witness:
  "connected (client truncated_frame) \<and> valid_kind MAGIC PROTO_VERSION
   \<and> hangup (client truncated_frame)
   \<and> length ([1, 0, 2, 0, 3, 0, 4, 0, 5 :: u8] @ concat (wire (client truncated_frame)))
        < entry_size MAGIC * unat (le16 2 0)
   \<and> handleClient truncated_frame = Some (False, truncated_result)
   \<and> display truncated_result = display truncated_frame
   \<and> \<not> sock (client truncated_result)
   \<and> frameCount truncated_result = 0 \<and> lastFrameId truncated_result = 0
   \<and> updatesApplied truncated_result = 0
   \<and> serial truncated_result = [Println ''Stream ended mid-frame; dropping client'']
   \<and> connected (client truncated_run) \<and> valid_kind MAGIC_RUN RUN_VERSION
   \<and> hangup (client truncated_run)
   \<and> length ([10, 0, 5 :: u8] @ concat (wire (client truncated_run)))
        < entry_size MAGIC_RUN * unat (le16 1 0)
   \<and> (\<exists>s'. handleClient truncated_run = Some (False, s')
          \<and> display s' = lilka_display \<and> \<not> sock (client s')
          \<and> frameCount s' = 0 \<and> lastFrameId s' = 0 \<and> updatesApplied s' = 0
          \<and> serial s' = [Println ''Stream ended mid-run frame; dropping client''])
   \<and> connected (client partial_header) \<and> available (client partial_header) < 11
   \<and> handleClient partial_header = Some (True, partial_header)"
proof -
  have a: "connected (client truncated_frame)"
    by (simp add: truncated_frame_def with_client_def sent_then_closed_def connected_def MAGIC_def)
  have b: "connected (client truncated_run)"
    by (simp add: truncated_run_def with_client_def connected_def)
  have c: "connected (client partial_header)"
    by (simp add: partial_header_def with_client_def connected_def)
  have vp: "valid_kind MAGIC PROTO_VERSION" and vr: "valid_kind MAGIC_RUN RUN_VERSION"
    by (simp_all add: valid_kind_def)
  have h1: "rxbuf (client truncated_frame) =
              MAGIC @ [PROTO_VERSION, 7, 0, 0, 0, 2, 0] @ [1, 0, 2, 0, 3, 0, 4, 0, 5]
            \<and> valid_kind MAGIC PROTO_VERSION \<and> hangup (client truncated_frame)
            \<and> length ([1, 0, 2, 0, 3, 0, 4, 0, 5 :: u8] @ concat (wire (client truncated_frame)))
                 < entry_size MAGIC * unat (le16 2 0)"
    using vp by (simp add: truncated_frame_def with_client_def sent_then_closed_def entry_size_def le16_def)
  have h2: "rxbuf (client truncated_run) = MAGIC_RUN @ [RUN_VERSION, 8, 0, 0, 0, 1, 0] @ [10, 0, 5]
            \<and> valid_kind MAGIC_RUN RUN_VERSION \<and> hangup (client truncated_run)
            \<and> length ([10, 0, 5 :: u8] @ concat (wire (client truncated_run)))
                 < entry_size MAGIC_RUN * unat (le16 1 0)"
    using vr MAGIC_neq by (simp add: truncated_run_def with_client_def entry_size_def le16_def)
  have h3: "available (client partial_header) < 11"
    by (simp add: partial_header_def with_client_def available_def MAGIC_def)
  have en: "unat (le16 1 0) \<le> width (display truncated_run) * height (display truncated_run)
            \<and> fst (ensureUpdateBuffer (ucast (le16 1 0)) truncated_run)"
    by (simp add: truncated_run_def with_client_def boot_def ensureUpdateBuffer_def roomy_heap_def
          sizeof_PixelUpdate_def ps_malloc_def le16_def lilka_display_def)
  note e1 = truncated_body_tears_down_untouched
              [OF a, of MAGIC PROTO_VERSION 7 0 0 0 2 0 "[1, 0, 2, 0, 3, 0, 4, 0, 5]",
               THEN conjunct1, THEN mp, OF h1]
  note e2 = truncated_body_tears_down_untouched
              [OF b, of MAGIC_RUN RUN_VERSION 8 0 0 0 1 0 "[10, 0, 5]",
               THEN conjunct1, THEN mp, OF h2]
  note e3 = truncated_body_tears_down_untouched
              [OF c, where magic = MAGIC and ver = 0 and body = "[]", THEN conjunct2, THEN mp, OF h3]
  have r2: "\<exists>s'. handleClient truncated_run = Some (False, s')
          \<and> display s' = lilka_display \<and> \<not> sock (client s')
          \<and> frameCount s' = 0 \<and> lastFrameId s' = 0 \<and> updatesApplied s' = 0
          \<and> serial s' = [Println ''Stream ended mid-run frame; dropping client'']"
  proof -
    from e2 en obtain s' where "handleClient truncated_run = Some (False, s')"
      "display s' = display truncated_run" "\<not> sock (client s')"
      "frameCount s' = frameCount truncated_run" "lastFrameId s' = lastFrameId truncated_run"
      "updatesApplied s' = updatesApplied truncated_run"
      "serial s' = serial truncated_run @ [Println (truncation_message MAGIC_RUN)]"
      by blast
    then show ?thesis using MAGIC_neq
      by (intro exI [of _ s']) (simp add: truncated_run_def with_client_def boot_def truncation_message_def)
  qed
  have r1: "display truncated_result = display truncated_frame
   \<and> \<not> sock (client truncated_result)
   \<and> frameCount truncated_result = 0 \<and> lastFrameId truncated_result = 0
   \<and> updatesApplied truncated_result = 0
   \<and> serial truncated_result = [Println ''Stream ended mid-frame; dropping client'']"
    using e1 by (simp add: truncated_frame_def truncated_result_def with_client_def boot_def client_stop_def)
  show ?thesis
    using a b c h1 h2 h3 r1 r2 e3 truncated_frame_result vp vr by simp
qed

text \<open>
  Claim C3 as stated fails for a stream that ends inside the header: with ten header bytes
  buffered and the peer gone, \<open>handleClient\<close> returns \<open>True\<close> at line 186 and the client
  keeps its socket; the connection is not torn down.
\<close>

theorem mid_header_end_keeps_connection_counterexample:
  "connected (client mid_header_closed)
   \<and> hangup (client mid_header_closed)
   \<and> incoming (client mid_header_closed) = MAGIC @ [PROTO_VERSION, 7, 0, 0, 0, 1]
   \<and> handleClient mid_header_closed = Some (True, mid_header_closed)
   \<and> sock (client mid_header_closed)"
  by (simp add: mid_header_closed_def with_client_def sent_then_closed_def connected_def incoming_def
        handleClient_def accept_client_def process_client_def client_bool_def available_def
        MAGIC_def)

subsection \<open>The buffer across calls of handleClient\<close>

lemma unat_ucast_16_32: "unat (ucast (count :: u16) :: u32) = unat count"
  using u16_bound [of count] by (simp add: unsigned_ucast_eq take_bit_nat_eq_self_iff)

lemma request_of_count: "unat (ucast (count :: u16) * sizeof_PixelUpdate :: u32) = unat count * 8"
  using u16_bound [of count]
  by (simp add: sizeof_PixelUpdate_def unat_word_ariths unat_ucast_16_32)

lemma ensure_fits:
  assumes "buffer_sized s" "ensureUpdateBuffer (ucast (count :: u16)) s = (True, s2)"
  shows "unat count \<le> length (bufferData s2) \<and> buffer_sized s2"
proof (cases "ucast count \<le> bufferCapacity s \<and> updateBuffer s \<noteq> None")
  case True
  then have "s2 = s" using assms(2) by (simp add: ensureUpdateBuffer_def)
  moreover have "unat count \<le> unat (bufferCapacity s)"
    using True by (simp add: word_le_nat_alt unat_ucast_16_32)
  ultimately show ?thesis using assms(1) by (simp add: buffer_sized_def)
next
  case False
  then have "length (bufferData s2) = unat count \<and> bufferCapacity s2 = ucast count"
    using assms(2)
    by (auto simp: ensureUpdateBuffer_def Let_def request_of_count [unfolded sizeof_PixelUpdate_def]
          sizeof_PixelUpdate_def split: if_splits prod.splits)
  then show ?thesis by (simp add: buffer_sized_def unat_ucast_16_32)
qed

lemma pixel_apply_frame:
  "pixel_apply i count s =
     s\<lparr>display := display (pixel_apply i count s),
       updatesApplied := updatesApplied (pixel_apply i count s)\<rparr>"
proof (induction "unat count - unat i" arbitrary: i s)
  case 0
  then have "\<not> i < count" by (simp add: word_less_nat_alt)
  then show ?case by (subst (1 2 3) pixel_apply.simps) simp
next
  case (Suc n)
  have True: "i < count" using Suc.hyps(2) by (simp add: word_less_nat_alt)
  have n: "n = unat count - unat (i + 1)" using Suc.hyps(2) word_succ [OF True] by simp
  let ?e = "bufferData s ! unat i"
  let ?s1 = "if unat (upd_x ?e) < width (display s) \<and> unat (upd_y ?e) < height (display s)
             then s\<lparr>display := drawPixel (upd_x ?e) (upd_y ?e) (upd_color ?e) (display s),
                    updatesApplied := updatesApplied s + 1\<rparr>
             else s"
  have step: "pixel_apply i count s = pixel_apply (i + 1) count ?s1"
    using True by (subst pixel_apply.simps) (simp add: Let_def)
  have "pixel_apply (i + 1) count ?s1 =
          ?s1\<lparr>display := display (pixel_apply (i + 1) count ?s1),
              updatesApplied := updatesApplied (pixel_apply (i + 1) count ?s1)\<rparr>"
    using Suc.hyps(1) [OF n, of ?s1] .
  then have "pixel_apply (i + 1) count ?s1 =
          s\<lparr>display := display (pixel_apply (i + 1) count ?s1),
              updatesApplied := updatesApplied (pixel_apply (i + 1) count ?s1)\<rparr>"
    by (auto split: if_splits)
  then show ?case unfolding step .
qed

lemma run_apply_frame:
  "run_apply i count s =
     s\<lparr>display := display (run_apply i count s),
       updatesApplied := updatesApplied (run_apply i count s)\<rparr>"
proof (induction "unat count - unat i" arbitrary: i s)
  case 0
  then have "\<not> i < count" by (simp add: word_less_nat_alt)
  then show ?case by (subst (1 2 3) run_apply.simps) simp
next
  case (Suc n)
  have True: "i < count" using Suc.hyps(2) by (simp add: word_less_nat_alt)
  have n: "n = unat count - unat (i + 1)" using Suc.hyps(2) word_succ [OF True] by simp
  let ?e = "bufferData s ! unat i"
  let ?s1 = "if unat (upd_x ?e) < width (display s) \<and> unat (upd_y ?e) < height (display s)
                \<and> upd_len ?e > 0 \<and> unat (upd_x ?e) + unat (upd_len ?e) \<le> width (display s)
             then s\<lparr>display := fillRect (upd_x ?e) (upd_y ?e) (upd_len ?e) 1 (upd_color ?e) (display s),
                    updatesApplied := updatesApplied s + ucast (upd_len ?e)\<rparr>
             else s"
  have step: "run_apply i count s = run_apply (i + 1) count ?s1"
    using True by (subst run_apply.simps) (simp add: Let_def)
  have "run_apply (i + 1) count ?s1 =
          ?s1\<lparr>display := display (run_apply (i + 1) count ?s1),
              updatesApplied := updatesApplied (run_apply (i + 1) count ?s1)\<rparr>"
    using Suc.hyps(1) [OF n, of ?s1] .
  then have "run_apply (i + 1) count ?s1 =
          s\<lparr>display := display (run_apply (i + 1) count ?s1),
              updatesApplied := updatesApplied (run_apply (i + 1) count ?s1)\<rparr>"
    by (auto split: if_splits)
  then show ?case unfolding step .
qed


lemma buffer_ok_boot: "buffer_ok (boot d h)"
  by (simp add: buffer_ok_def buffer_inv_def buffer_sized_def boot_def)

lemma buffer_stepI:
  "updateBuffer s' = updateBuffer s \<Longrightarrow> bufferCapacity s' = bufferCapacity s \<Longrightarrow>
   length (bufferData s') = length (bufferData s) \<Longrightarrow> buffer_step s s'"
  by (simp add: buffer_step_def buffer_ok_def buffer_inv_def buffer_sized_def)

lemma buffer_step_trans: "buffer_step s t \<Longrightarrow> buffer_step t u \<Longrightarrow> buffer_step s u"
  by (auto simp: buffer_step_def)

lemma ensure_buffer_step: "buffer_step s (snd (ensureUpdateBuffer (ucast (count :: u16)) s))"
proof (cases "fst (ensureUpdateBuffer (ucast count) s)")
  case False
  then show ?thesis using ensure_false [OF False] by (intro buffer_stepI) simp_all
next
  case True
  then have eq: "ensureUpdateBuffer (ucast count) s = (True, snd (ensureUpdateBuffer (ucast count) s))"
    by (cases "ensureUpdateBuffer (ucast count) s") simp
  show ?thesis
    unfolding buffer_step_def buffer_ok_def
    using ensure_fits [OF _ eq] ensure_inv [of s "ucast count"] ensure_monotone [of s "ucast count"]
    by blast
qed

lemma report_stats_frame:
  "report_stats s = s\<lparr>serial := serial (report_stats s), lastStats := lastStats (report_stats s)\<rparr>"
  by (simp add: report_stats_def Let_def)

lemma pixel_body_buffer:
  assumes "pixel_body fid count s = Some (r, s')"
  shows "buffer_step s s'"
proof (cases "ensureUpdateBuffer (ucast count) s")
  case (Pair ok s2)
  have st2: "buffer_step s s2" using ensure_buffer_step [of s count] Pair by simp
  show ?thesis
  proof (cases ok)
    case False
    then have "s' = s2\<lparr>client := client_stop (client s2),
                       serial := serial s2 @ [Println ''No buffer for updates; dropping client'']\<rparr>"
      using assms Pair by (auto simp: pixel_body_def)
    then have "buffer_step s2 s'" by (intro buffer_stepI) simp_all
    with st2 show ?thesis by (rule buffer_step_trans)
  next
    case okT: True
    show ?thesis
    proof (cases "pixel_decode 0 count s2")
      case None
      then show ?thesis using assms Pair okT by (simp add: pixel_body_def)
    next
      case (Some res)
      obtain d s3 where res: "res = (d, s3)" by (cases res) auto
      note de = pixel_decode_effect [OF Some [unfolded res]]
      have st3: "buffer_step s2 s3" using de by (intro buffer_stepI) simp_all
      show ?thesis
      proof (cases d)
        case False
        then have "s' = s3" using assms Pair okT Some res by (auto simp: pixel_body_def)
        then show ?thesis using st2 st3 by (auto intro: buffer_step_trans)
      next
        case dT: True
        let ?s4 = "pixel_apply 0 count s3"
        let ?s5 = "?s4\<lparr>frameCount := frameCount ?s4 + 1, lastFrameId := fid\<rparr>"
        have rs: "s' = report_stats ?s5"
          using assms Pair okT Some res dT by (auto simp: pixel_body_def Let_def)
        have "buffer_step s3 s'"
          unfolding rs
          by (intro buffer_stepI; subst report_stats_frame; simp; subst pixel_apply_frame; simp)
        then show ?thesis using st2 st3 by (auto intro: buffer_step_trans)
      qed
    qed
  qed
qed

lemma run_body_buffer:
  assumes "run_body fid count s = Some (r, s')"
  shows "buffer_step s s'"
proof (cases "ensureUpdateBuffer (ucast count) s")
  case (Pair ok s2)
  have st2: "buffer_step s s2" using ensure_buffer_step [of s count] Pair by simp
  show ?thesis
  proof (cases ok)
    case False
    then have "s' = s2\<lparr>client := client_stop (client s2),
                       serial := serial s2 @ [Println ''No buffer for run updates; dropping client'']\<rparr>"
      using assms Pair by (auto simp: run_body_def)
    then have "buffer_step s2 s'" by (intro buffer_stepI) simp_all
    with st2 show ?thesis by (rule buffer_step_trans)
  next
    case okT: True
    show ?thesis
    proof (cases "run_decode 0 count s2")
      case None
      then show ?thesis using assms Pair okT by (simp add: run_body_def)
    next
      case (Some res)
      obtain d s3 where res: "res = (d, s3)" by (cases res) auto
      note de = run_decode_effect [OF Some [unfolded res]]
      have st3: "buffer_step s2 s3" using de by (intro buffer_stepI) simp_all
      show ?thesis
      proof (cases d)
        case False
        then have "s' = s3" using assms Pair okT Some res by (auto simp: run_body_def)
        then show ?thesis using st2 st3 by (auto intro: buffer_step_trans)
      next
        case dT: True
        let ?s4 = "run_apply 0 count s3"
        let ?s5 = "?s4\<lparr>frameCount := frameCount ?s4 + 1, lastFrameId := fid\<rparr>"
        have rs: "s' = report_stats ?s5"
          using assms Pair okT Some res dT by (auto simp: run_body_def Let_def)
        have "buffer_step s3 s'"
          unfolding rs
          by (intro buffer_stepI; subst report_stats_frame; simp; subst run_apply_frame; simp)
        then show ?thesis using st2 st3 by (auto intro: buffer_step_trans)
      qed
    qed
  qed
qed


lemma pixel_frame_buffer:
  assumes "pixel_frame fid count s = Some (r, s')"
  shows "buffer_step s s'"
proof (cases "count = 0 \<or> unat count > width (display s) * height (display s)")
  case True
  then show ?thesis using assms
    by (intro buffer_stepI) (auto simp: pixel_frame_def split: if_splits)
next
  case False
  then show ?thesis using assms pixel_body_buffer [of fid count s r s']
    by (simp add: pixel_frame_def)
qed

lemma run_frame_buffer:
  assumes "run_frame fid count s = Some (r, s')"
  shows "buffer_step s s'"
proof (cases "count = 0 \<or> unat count > width (display s) * height (display s)")
  case True
  then show ?thesis using assms
    by (intro buffer_stepI) (auto simp: run_frame_def split: if_splits)
next
  case False
  then show ?thesis using assms run_body_buffer [of fid count s r s']
    by (simp add: run_frame_def)
qed

lemma buffer_step_client [simp]: "buffer_step (s\<lparr>client := c\<rparr>) s' = buffer_step s s'"
  by (simp add: buffer_step_def buffer_ok_def buffer_inv_def buffer_sized_def)

lemma pixel_packet_buffer:
  assumes "pixel_packet s = Some (r, s')"
  shows "buffer_step s s'"
proof (cases "readExactly (client s) (HEADER_SIZE - 4)")
  case None
  then show ?thesis using assms by (simp add: pixel_packet_def)
next
  case (Some res)
  obtain ok rest c where res: "res = (ok, rest, c)" by (cases res) auto
  show ?thesis
  proof (cases "ok \<and> rest ! 0 = PROTO_VERSION")
    case False
    then show ?thesis using assms Some res
      by (intro buffer_stepI) (auto simp: pixel_packet_def split: if_splits)
  next
    case True
    then have "pixel_frame (le32 (rest ! 1) (rest ! 2) (rest ! 3) (rest ! 4)) (le16 (rest ! 5) (rest ! 6))
                 (s\<lparr>client := c\<rparr>) = Some (r, s')"
      using assms Some res by (simp add: pixel_packet_def Let_def)
    from pixel_frame_buffer [OF this] show ?thesis by simp
  qed
qed

lemma run_packet_buffer:
  assumes "run_packet s = Some (r, s')"
  shows "buffer_step s s'"
proof (cases "readExactly (client s) (RUN_HEADER_SIZE - 4)")
  case None
  then show ?thesis using assms by (simp add: run_packet_def)
next
  case (Some res)
  obtain ok rest c where res: "res = (ok, rest, c)" by (cases res) auto
  show ?thesis
  proof (cases "ok \<and> rest ! 0 = RUN_VERSION")
    case False
    then show ?thesis using assms Some res
      by (intro buffer_stepI) (auto simp: run_packet_def split: if_splits)
  next
    case True
    then have "run_frame (le32 (rest ! 1) (rest ! 2) (rest ! 3) (rest ! 4)) (le16 (rest ! 5) (rest ! 6))
                 (s\<lparr>client := c\<rparr>) = Some (r, s')"
      using assms Some res by (simp add: run_packet_def Let_def)
    from run_frame_buffer [OF this] show ?thesis by simp
  qed
qed

lemma process_client_buffer:
  assumes "process_client s = Some (r, s')"
  shows "buffer_step s s'"
proof (cases "\<not> client_bool (client s) \<or> \<not> connected (client s) \<or> available (client s) < 11")
  case True
  then show ?thesis using assms
    by (intro buffer_stepI) (auto simp: process_client_def split: if_splits)
next
  case False
  show ?thesis
  proof (cases "readExactly (client s) 4")
    case None
    then show ?thesis using assms False by (simp add: process_client_def)
  next
    case (Some res)
    obtain ok magicBuf c where res: "res = (ok, magicBuf, c)" by (cases res) auto
    show ?thesis
    proof (cases "ok \<and> (magicBuf = MAGIC_RUN \<or> magicBuf = MAGIC)")
      case nf: False
      then show ?thesis using assms False Some res
        by (intro buffer_stepI) (auto simp: process_client_def Let_def split: if_splits)
    next
      case True
      show ?thesis
      proof (cases "magicBuf = MAGIC")
        case px: True
        then have "pixel_packet (s\<lparr>client := c\<rparr>) = Some (r, s')"
          using assms False Some res True by (simp add: process_client_def Let_def)
        from pixel_packet_buffer [OF this] show ?thesis by simp
      next
        case rn: False
        then have "run_packet (s\<lparr>client := c\<rparr>) = Some (r, s')"
          using assms False Some res True by (simp add: process_client_def Let_def)
        from run_packet_buffer [OF this] show ?thesis by simp
      qed
    qed
  qed
qed

lemma accept_client_buffer: "buffer_step s (accept_client s)"
  by (intro buffer_stepI) (auto simp: accept_client_def Let_def split: prod.splits)

text \<open>
  From boot on, every call of \<open>handleClient\<close> that returns keeps the buffer in order and
  does not lower its capacity.
\<close>

lemma handleClient_buffer:
  assumes "handleClient s = Some (r, s')"
  shows "buffer_step s s'"
  using assms accept_client_buffer [of s] process_client_buffer [of "accept_client s" r s']
  by (auto simp: handleClient_def intro: buffer_step_trans)

lemma handleClient_capacity_monotone:
  assumes "buffer_ok s" "handleClient s = Some (r, s')"
  shows "buffer_ok s' \<and> bufferCapacity s \<le> bufferCapacity s'"
  using handleClient_buffer [OF assms(2)] assms(1) by (simp add: buffer_step_def)

lemma report_stats_fields:
  "display (report_stats s) = display s \<and> updatesApplied (report_stats s) = updatesApplied s
   \<and> frameCount (report_stats s) = frameCount s \<and> lastFrameId (report_stats s) = lastFrameId s
   \<and> bufferData (report_stats s) = bufferData s"
  by (simp add: report_stats_def Let_def)

text \<open>
  Inside \<open>handleClient\<close> the apply loops run on a buffer that holds the entries of the
  frame: a pixel frame (or a run frame) that completes has added to the display exactly the
  calls of the entries that pass the test, among the first \<open>count\<close> entries of the buffer
  as the decode loop has filled it, and has counted the frame.
\<close>

lemma pixel_body_applies:
  assumes "buffer_sized s" "pixel_body fid count s = Some (True, s')"
  shows "unat count \<le> length (bufferData s')
    \<and> display s' = (display s)\<lparr>ops := ops (display s) @
          map pixel_op (filter (in_bounds (display s)) (take (unat count) (bufferData s')))\<rparr>
    \<and> updatesApplied s' = updatesApplied s +
          of_nat (length (filter (in_bounds (display s)) (take (unat count) (bufferData s'))))
    \<and> frameCount s' = frameCount s + 1 \<and> lastFrameId s' = fid"
proof (cases "ensureUpdateBuffer (ucast count) s")
  case (Pair ok s2)
  have okT: "ok" using assms(2) Pair by (cases ok) (auto simp: pixel_body_def)
  note ee = ensure_effect [OF Pair]
  have fit: "unat count \<le> length (bufferData s2)"
    using ensure_fits [OF assms(1)] Pair okT by simp
  show ?thesis
  proof (cases "pixel_decode 0 count s2")
    case None
    then show ?thesis using assms Pair okT by (simp add: pixel_body_def)
  next
    case (Some res)
    obtain d s3 where res: "res = (d, s3)" by (cases res) auto
    have dT: "d" using assms(2) Pair okT Some res by (cases d) (auto simp: pixel_body_def)
    note de = pixel_decode_effect [OF Some [unfolded res]]
    have fit3: "unat count \<le> length (bufferData s3)" using fit de by simp
    let ?s4 = "pixel_apply 0 count s3"
    let ?s5 = "?s4\<lparr>frameCount := frameCount ?s4 + 1, lastFrameId := fid\<rparr>"
    have rs: "s' = report_stats ?s5"
      using assms Pair okT Some res dT by (auto simp: pixel_body_def Let_def)
    have ap: "?s4 = s3\<lparr>display := (display s3)\<lparr>ops := ops (display s3) @
          map pixel_op (filter (in_bounds (display s3)) (take (unat count) (bufferData s3)))\<rparr>,
       updatesApplied := updatesApplied s3 +
          of_nat (length (filter (in_bounds (display s3)) (take (unat count) (bufferData s3))))\<rparr>"
      using pixel_apply_from [OF fit3, of 0] by simp
    show ?thesis
      unfolding rs using fit by (simp add: report_stats_fields ap de ee)
  qed
qed

lemma run_body_applies:
  assumes "buffer_sized s" "run_body fid count s = Some (True, s')"
  shows "unat count \<le> length (bufferData s')
    \<and> display s' = (display s)\<lparr>ops := ops (display s) @
          map run_op (filter (run_fits (display s)) (take (unat count) (bufferData s')))\<rparr>
    \<and> updatesApplied s' = updatesApplied s +
          run_total (filter (run_fits (display s)) (take (unat count) (bufferData s')))
    \<and> frameCount s' = frameCount s + 1 \<and> lastFrameId s' = fid"
proof (cases "ensureUpdateBuffer (ucast count) s")
  case (Pair ok s2)
  have okT: "ok" using assms(2) Pair by (cases ok) (auto simp: run_body_def)
  note ee = ensure_effect [OF Pair]
  have fit: "unat count \<le> length (bufferData s2)"
    using ensure_fits [OF assms(1)] Pair okT by simp
  show ?thesis
  proof (cases "run_decode 0 count s2")
    case None
    then show ?thesis using assms Pair okT by (simp add: run_body_def)
  next
    case (Some res)
    obtain d s3 where res: "res = (d, s3)" by (cases res) auto
    have dT: "d" using assms(2) Pair okT Some res by (cases d) (auto simp: run_body_def)
    note de = run_decode_effect [OF Some [unfolded res]]
    have fit3: "unat count \<le> length (bufferData s3)" using fit de by simp
    let ?s4 = "run_apply 0 count s3"
    let ?s5 = "?s4\<lparr>frameCount := frameCount ?s4 + 1, lastFrameId := fid\<rparr>"
    have rs: "s' = report_stats ?s5"
      using assms Pair okT Some res dT by (auto simp: run_body_def Let_def)
    have ap: "?s4 = s3\<lparr>display := (display s3)\<lparr>ops := ops (display s3) @
          map run_op (filter (run_fits (display s3)) (take (unat count) (bufferData s3)))\<rparr>,
       updatesApplied := updatesApplied s3 +
          run_total (filter (run_fits (display s3)) (take (unat count) (bufferData s3)))\<rparr>"
      using run_apply_from [OF fit3, of 0] by simp
    show ?thesis
      unfolding rs using fit by (simp add: report_stats_fields ap de ee)
  qed
qed

subsection \<open>A read that blocks, and a read across arrivals\<close>

text \<open>
  \<open>readExactly\<close> has no timeout: from a silent peer it never returns. And bytes that
  arrive in pieces, between calls of \<^verbatim>\<open>delay(1)\<close>, are put together in order.
\<close>

lemma readExactly_loop_silent:
  assumes "readExactly_loop c dst len got = Some r"
  shows "\<not> (silent c \<and> got < len)"
  using assms
proof (rule readExactly_loop.raw_induct [where P = "\<lambda>c dst len got r. \<not> (silent c \<and> got < len)", rotated])
  fix f c dst len got r
  assume IH: "\<And>c dst len got r. f c dst len got = Some r \<Longrightarrow> \<not> (silent c \<and> got < len)"
    and body: "(if got < len \<and> connected c
                then case client_read c (len - got) of
                       (chunk, c') \<Rightarrow>
                         if 0 < length chunk then f c' (dst @ chunk) len (got + length chunk)
                         else f (delay1 c') dst len got
                else Some (got = len, dst, c)) = Some r"
  show "\<not> (silent c \<and> got < len)"
  proof
    assume a: "silent c \<and> got < len"
    then have cn: "connected c" by (simp add: silent_def connected_def)
    have rd: "client_read c (len - got) = ([], c)"
      using a by (simp add: silent_def client_read_def)
    have dl: "delay1 c = c" using a by (simp add: silent_def delay1_def)
    from body a cn rd dl have "f c dst len got = Some r" by simp
    from IH [OF this] a show False by simp
  qed
qed

lemma readExactly_silent_peer:
  "silent c \<Longrightarrow> 0 < n \<Longrightarrow> readExactly c n = None"
  using readExactly_loop_silent [of c "[]" n 0] by (cases "readExactly c n") (auto simp: readExactly_def)

lemma readExactly_across_chunks:
  "readExactly \<lparr>sock = True, rxbuf = [1, 2], wire = [[], [3], [4, 5, 6, 7]], hangup = False\<rparr> 6 =
     Some (True, [1, 2, 3, 4, 5, 6], \<lparr>sock = True, rxbuf = [7], wire = [], hangup = False\<rparr>)"
  unfolding readExactly_def
  apply (subst readExactly_loop.simps, simp add: connected_def client_read_def delay1_def)
  apply (subst readExactly_loop.simps, simp add: connected_def client_read_def delay1_def)
  apply (subst readExactly_loop.simps, simp add: connected_def client_read_def delay1_def)
  apply (subst readExactly_loop.simps, simp add: connected_def client_read_def delay1_def)
  apply (subst readExactly_loop.simps, simp add: connected_def client_read_def delay1_def)
  apply (subst readExactly_loop.simps, simp add: connected_def client_read_def delay1_def)
  apply (subst readExactly_loop.simps, simp add: connected_def client_read_def delay1_def)
  done

end
